theory Spec2Isabelle
  imports Complex_Main "HOL-Library.Multiset"
begin

unbundle bit_operations_syntax

section \<open>The ant colony of ants.py\<close>

text \<open>
  The class \<open>Colony\<close> keeps one numpy array per attribute (seeds, is_loaded, max_life,
  age, historic_path, directions), all indexed by the ant. The record below has one
  list per array. Every vectorised statement of the source acts on each selected ant
  separately, so it is written as a table over the ant indices: \<open>tab n f\<close> is the array
  whose entry \<open>i\<close> is \<open>f i\<close>.

  Numbers: seeds and ages are int64, coordinates int16. The wrap-around of the int64
  product in the seed recurrence and of the int16 coordinate arithmetic is written out
  (\<open>i64\<close>, \<open>i16\<close>). Ages only ever change by one and index the path history, so an age
  leaves the index range (and the source raises IndexError) long before it could wrap.
  Scent values are doubles; the colony only compares them, takes maxima and multiplies
  them by a boolean, which is exact on finite doubles: they are modelled as reals.
\<close>

subsection \<open>Errors and numpy indexing\<close>

datatype error = IndexError | ShapeMismatch | OutOfFuel

definition bindE :: "error + 'a \<Rightarrow> ('a \<Rightarrow> error + 'b) \<Rightarrow> error + 'b" where
  "bindE m f = (case m of Inl e \<Rightarrow> Inl e | Inr x \<Rightarrow> f x)"

definition tab :: "nat \<Rightarrow> (nat \<Rightarrow> 'a) \<Rightarrow> 'a list" where
  "tab n f = map f [0..<n]"

definition i16 :: "int \<Rightarrow> int" where
  "i16 x = (x + 32768) mod 65536 - 32768"

definition i64 :: "int \<Rightarrow> int" where
  "i64 x = (x + 9223372036854775808) mod 18446744073709551616 - 9223372036854775808"

text \<open>
  numpy accepts the indices \<open>-n \<le> i < n\<close> of an axis of length \<open>n\<close>, a negative one
  counting from the end, and raises IndexError for every other index.
\<close>

definition idx_ok :: "nat \<Rightarrow> int \<Rightarrow> bool" where
  "idx_ok n i \<longleftrightarrow> - int n \<le> i \<and> i < int n"

definition idx :: "nat \<Rightarrow> int \<Rightarrow> nat" where
  "idx n i = nat (if i < 0 then i + int n else i)"

type_synonym pos = "int \<times> int"

text \<open>\<open>historic_path[i, a, :]\<close>: the position of ant \<open>i\<close> at age \<open>a\<close>.\<close>

definition path_ok :: "pos list list \<Rightarrow> nat \<Rightarrow> int \<Rightarrow> bool" where
  "path_ok hp i a \<longleftrightarrow> idx_ok (length (hp ! i)) a"

definition path_at :: "pos list list \<Rightarrow> nat \<Rightarrow> int \<Rightarrow> pos" where
  "path_at hp i a = hp ! i ! idx (length (hp ! i)) a"

definition path_set :: "pos list list \<Rightarrow> nat \<Rightarrow> int \<Rightarrow> pos \<Rightarrow> pos list" where
  "path_set hp i a p = (hp ! i)[idx (length (hp ! i)) a := p]"

text \<open>A two-dimensional array \<open>a[r, c]\<close>, as the list of its rows.\<close>

definition arr_ok :: "'a list list \<Rightarrow> pos \<Rightarrow> bool" where
  "arr_ok a p \<longleftrightarrow> idx_ok (length a) (fst p) \<and>
     idx_ok (length (a ! idx (length a) (fst p))) (snd p)"

definition arr_at :: "'a list list \<Rightarrow> pos \<Rightarrow> 'a" where
  "arr_at a p = a ! idx (length a) (fst p) ! idx (length (a ! idx (length a) (fst p))) (snd p)"

subsection \<open>The colony and the constants of the modules maze and direction\<close>

record colony =
  seeds :: "int list"
  is_loaded :: "bool list"
  max_life :: "int list"
  age :: "int list"
  historic_path :: "pos list list"
  directions :: "int list"

text \<open>
  The modules \<open>maze\<close> and \<open>direction\<close> are not among the sources; ants.py uses their
  constants only by name. They are a parameter of the model: the four exit bits of a maze
  cell and the five direction codes.
\<close>

record codes =
  NORTH :: int
  EAST :: int
  SOUTH :: int
  WEST :: int
  DIR_NONE :: int
  DIR_NORTH :: int
  DIR_EAST :: int
  DIR_SOUTH :: int
  DIR_WEST :: int

definition exploration_coefs :: real where
  "exploration_coefs = 0"

definition lcg :: "int \<Rightarrow> int" where
  "lcg s = i64 (16807 * s) mod 2147483647"

text \<open>
  \<open>Colony.__init__\<close>. The life of an ant is \<open>max_life\<close> minus a quarter of
  \<open>int32(max_life * (seed / 2147483647.))\<close>; the truncated product is written as the
  integer quotient. The position of the nest is a cell of the maze, with coordinates in the
  int16 range, so that storing it in the history (lines 41, 42, 185 and 186) keeps it as
  it is.
\<close>

definition Colony :: "codes \<Rightarrow> nat \<Rightarrow> pos \<Rightarrow> nat \<Rightarrow> colony" where
  "Colony K nb_ants pos_init max_life0 =
     (let seeds0 = tab nb_ants (\<lambda>i. lcg (int i + 1)) in
      \<lparr> seeds = seeds0,
        is_loaded = replicate nb_ants False,
        max_life = map (\<lambda>s. int max_life0 - ((int max_life0 * s) div 2147483647) div 4) seeds0,
        age = replicate nb_ants 0,
        historic_path = replicate nb_ants (pos_init # replicate max_life0 (0, 0)),
        directions = replicate nb_ants (DIR_NONE K) \<rparr>)"

subsection \<open>return_to_nest\<close>

definition return_to_nest :: "colony \<Rightarrow> nat list \<Rightarrow> pos \<Rightarrow> int \<Rightarrow> error + colony \<times> int" where
  "return_to_nest c loaded_ants pos_nest food_counter =
     (let n = length (age c);
          age1 = tab n (\<lambda>i. if i \<in> set loaded_ants then age c ! i - 1 else age c ! i)
      in if \<not> (\<forall>i \<in> set loaded_ants. i < n \<and> path_ok (historic_path c) i (age1 ! i))
         then Inl IndexError
         else
           let in_nest = filter (\<lambda>i. path_at (historic_path c) i (age1 ! i) = pos_nest) loaded_ants
           in Inr (c\<lparr> is_loaded := tab n (\<lambda>i. if i \<in> set in_nest then False else is_loaded c ! i),
                      age := tab n (\<lambda>i. if i \<in> set in_nest then 0 else age1 ! i) \<rparr>,
                   food_counter + int (length in_nest)))"

subsection \<open>explore\<close>

text \<open>The local arrays of \<open>explore\<close> that hold what every ant sees around its cell.\<close>

record senses =
  has_north_exit :: "bool list"
  has_east_exit :: "bool list"
  has_south_exit :: "bool list"
  has_west_exit :: "bool list"
  north_pheromone :: "real list"
  east_pheromone :: "real list"
  south_pheromone :: "real list"
  west_pheromone :: "real list"
  max_pheromones :: "real list"

definition old_pos_ants :: "colony \<Rightarrow> nat \<Rightarrow> pos" where
  "old_pos_ants c i = path_at (historic_path c) i (age c ! i)"

definition north_pos :: "pos \<Rightarrow> pos" where
  "north_pos p = (fst p, i16 (snd p + 1))"

definition east_pos :: "pos \<Rightarrow> pos" where
  "east_pos p = (i16 (fst p + 1), i16 (snd p + 2))"

definition south_pos :: "pos \<Rightarrow> pos" where
  "south_pos p = (i16 (fst p + 2), i16 (snd p + 1))"

definition west_pos :: "pos \<Rightarrow> pos" where
  "west_pos p = (i16 (fst p + 1), snd p)"

definition gated :: "real \<Rightarrow> bool \<Rightarrow> real" where
  "gated x b = (if b then x else 0)"

text \<open>Lines 92 to 119: exits and neighbouring scent of every ant, loaded or not.\<close>

definition sense :: "codes \<Rightarrow> colony \<Rightarrow> int list list \<Rightarrow> real list list \<Rightarrow> error + senses" where
  "sense K c the_maze pheromon =
     (let n = length (seeds c) in
      if \<not> (\<forall>i < n. path_ok (historic_path c) i (age c ! i)) then Inl IndexError
      else if \<not> (\<forall>i < n. arr_ok the_maze (old_pos_ants c i)) then Inl IndexError
      else if \<not> (\<forall>i < n. arr_ok pheromon (north_pos (old_pos_ants c i))
                       \<and> arr_ok pheromon (east_pos (old_pos_ants c i))
                       \<and> arr_ok pheromon (south_pos (old_pos_ants c i))
                       \<and> arr_ok pheromon (west_pos (old_pos_ants c i))) then Inl IndexError
      else
        let cell = (\<lambda>i. arr_at the_maze (old_pos_ants c i));
            hn = tab n (\<lambda>i. cell i AND NORTH K > 0);
            he = tab n (\<lambda>i. cell i AND EAST K > 0);
            hs = tab n (\<lambda>i. cell i AND SOUTH K > 0);
            hw = tab n (\<lambda>i. cell i AND WEST K > 0);
            pn = tab n (\<lambda>i. gated (arr_at pheromon (north_pos (old_pos_ants c i))) (hn ! i));
            pe = tab n (\<lambda>i. gated (arr_at pheromon (east_pos (old_pos_ants c i))) (he ! i));
            ps = tab n (\<lambda>i. gated (arr_at pheromon (south_pos (old_pos_ants c i))) (hs ! i));
            pw = tab n (\<lambda>i. gated (arr_at pheromon (west_pos (old_pos_ants c i))) (hw ! i))
        in Inr \<lparr> has_north_exit = hn, has_east_exit = he, has_south_exit = hs, has_west_exit = hw,
                 north_pheromone = pn, east_pheromone = pe, south_pheromone = ps,
                 west_pheromone = pw,
                 max_pheromones = tab n (\<lambda>i. max (max (max (pn ! i) (pe ! i)) (ps ! i)) (pw ! i)) \<rparr>)"

definition nb_exits :: "senses \<Rightarrow> nat \<Rightarrow> nat" where
  "nb_exits S i = of_bool (has_north_exit S ! i) + of_bool (has_east_exit S ! i)
                + of_bool (has_south_exit S ! i) + of_bool (has_west_exit S ! i)"

text \<open>
  Lines 137 to 147: the cell a direction code leads to. A step is taken only through an
  open exit; otherwise the position stays.
\<close>

definition new_pos :: "codes \<Rightarrow> senses \<Rightarrow> nat \<Rightarrow> int \<Rightarrow> pos \<Rightarrow> pos" where
  "new_pos K S i dir old_pos =
     (let c1 = i16 (snd old_pos - of_bool (dir = DIR_WEST K \<and> has_west_exit S ! i));
          c2 = i16 (c1 + of_bool (dir = DIR_EAST K \<and> has_east_exit S ! i));
          r1 = i16 (fst old_pos - of_bool (dir = DIR_NORTH K \<and> has_north_exit S ! i));
          r2 = i16 (r1 + of_bool (dir = DIR_SOUTH K \<and> has_south_exit S ! i))
      in (r2, c2))"

text \<open>Lines 149 to 153: the move of ant \<open>i\<close> in direction \<open>dir\<close> is accepted.\<close>

definition valid_move :: "codes \<Rightarrow> senses \<Rightarrow> colony \<Rightarrow> nat \<Rightarrow> int \<Rightarrow> bool" where
  "valid_move K S c i dir \<longleftrightarrow>
     (let old_pos = old_pos_ants c i; np = new_pos K S i dir old_pos
      in (fst np \<noteq> fst old_pos \<or> snd np \<noteq> snd old_pos)
         \<and> (dir \<noteq> 3 - directions c ! i \<or> nb_exits S i = 1))"

text \<open>
  One pass of the body of the while loop (lines 133 to 158) over the colony and the
  array \<open>valid_moves\<close>. Line 135 advances the seed of every ant. The ants still to move
  are the exploring ants without a valid move (line 134); each of them draws the
  direction \<open>seed mod 4\<close> and has its move checked (lines 137 to 153); the ants whose
  move is valid (line 155) get their new position and their direction written.
\<close>

definition ind_ants_to_move :: "nat list \<Rightarrow> bool list \<Rightarrow> nat list" where
  "ind_ants_to_move ind_exploring_ants valid_moves =
     filter (\<lambda>i. \<not> valid_moves ! i) ind_exploring_ants"

definition checked_moves ::
  "codes \<Rightarrow> senses \<Rightarrow> nat list \<Rightarrow> colony \<Rightarrow> bool list \<Rightarrow> bool list" where
  "checked_moves K S ind_exploring_ants c valid_moves =
     tab (length (seeds c)) (\<lambda>i. if i \<in> set (ind_ants_to_move ind_exploring_ants valid_moves)
                                 then valid_move K S c i (seeds c ! i mod 4)
                                 else valid_moves ! i)"

definition ind_valid_moves :: "nat list \<Rightarrow> bool list \<Rightarrow> bool list \<Rightarrow> nat list" where
  "ind_valid_moves ind_exploring_ants valid_moves valid_moves1 =
     filter (\<lambda>i. valid_moves1 ! i) (ind_ants_to_move ind_exploring_ants valid_moves)"

definition try_moves ::
  "codes \<Rightarrow> senses \<Rightarrow> nat list \<Rightarrow> colony \<times> bool list \<Rightarrow> error + colony \<times> bool list" where
  "try_moves K S ind_exploring_ants cv =
     (let c = fst cv; valid_moves = snd cv; n = length (seeds c);
          c1 = c\<lparr> seeds := map lcg (seeds c) \<rparr>;
          valid_moves1 = checked_moves K S ind_exploring_ants c1 valid_moves;
          valid_now = ind_valid_moves ind_exploring_ants valid_moves valid_moves1
      in if \<not> (\<forall>i \<in> set ind_exploring_ants. i < n) then Inl IndexError
         else if \<not> (\<forall>i \<in> set (ind_ants_to_move ind_exploring_ants valid_moves).
                       path_ok (historic_path c1) i (age c1 ! i))
         then Inl IndexError
         else if \<not> (\<forall>i \<in> set valid_now. path_ok (historic_path c1) i (age c1 ! i + 1))
         then Inl IndexError
         else Inr (c1\<lparr> historic_path := tab n (\<lambda>i. if i \<in> set valid_now
                            then path_set (historic_path c1) i (age c1 ! i + 1)
                                   (new_pos K S i (seeds c1 ! i mod 4) (old_pos_ants c1 i))
                            else historic_path c1 ! i),
                        directions := tab n (\<lambda>i. if i \<in> set valid_now
                            then seeds c1 ! i mod 4 else directions c1 ! i) \<rparr>,
                   valid_moves1))"

text \<open>
  The while loop of line 132. Nothing in the source bounds the number of passes, so the
  model counts them down from a fuel and answers \<open>OutOfFuel\<close> when the fuel is used up
  with an ant still waiting for a valid move.
\<close>

fun explore_loop ::
  "nat \<Rightarrow> codes \<Rightarrow> senses \<Rightarrow> nat list \<Rightarrow> colony \<times> bool list \<Rightarrow> error + colony \<times> bool list" where
  "explore_loop fuel K S ind_exploring_ants cv =
     (if \<forall>i \<in> set ind_exploring_ants. snd cv ! i then Inr cv
      else case fuel of
        0 \<Rightarrow> Inl OutOfFuel
      | Suc fuel' \<Rightarrow> bindE (try_moves K S ind_exploring_ants cv)
                        (explore_loop fuel' K S ind_exploring_ants))"

text \<open>Lines 160 to 175: the ants that follow the scent move towards every neighbour
  whose gated scent equals the maximum.\<close>

definition follow_pos :: "senses \<Rightarrow> nat \<Rightarrow> pos \<Rightarrow> pos" where
  "follow_pos S i p =
     (let c1 = i16 (snd p + of_bool (east_pheromone S ! i = max_pheromones S ! i));
          c2 = i16 (c1 - of_bool (west_pheromone S ! i = max_pheromones S ! i));
          r1 = i16 (fst p - of_bool (north_pheromone S ! i = max_pheromones S ! i));
          r2 = i16 (r1 + of_bool (south_pheromone S ! i = max_pheromones S ! i))
      in (r2, c2))"

definition follow :: "senses \<Rightarrow> nat list \<Rightarrow> colony \<Rightarrow> error + colony" where
  "follow S ind_following_ants c =
     (let n = length (seeds c) in
      if \<not> (\<forall>i \<in> set ind_following_ants.
               path_ok (historic_path c) i (age c ! i) \<and> path_ok (historic_path c) i (age c ! i + 1))
      then Inl IndexError
      else Inr (c\<lparr> historic_path := tab n (\<lambda>i. if i \<in> set ind_following_ants
                     then path_set (historic_path c) i (age c ! i + 1)
                            (follow_pos S i (old_pos_ants c i))
                     else historic_path c ! i) \<rparr>))"

text \<open>Lines 177 to 187: the unloaded ants age; every ant at the end of its life goes
  back to the nest.\<close>

definition grow_old :: "codes \<Rightarrow> nat list \<Rightarrow> pos \<Rightarrow> colony \<Rightarrow> colony" where
  "grow_old K unloaded_ants pos_nest c =
     (let n = length (seeds c);
          age1 = tab n (\<lambda>i. if i \<in> set unloaded_ants then age c ! i + 1 else age c ! i);
          dying = (\<lambda>i. age1 ! i = max_life c ! i)
      in c\<lparr> age := tab n (\<lambda>i. if dying i then 0 else age1 ! i),
             historic_path := tab n (\<lambda>i. if dying i then (historic_path c ! i)[0 := pos_nest]
                                          else historic_path c ! i),
             directions := tab n (\<lambda>i. if dying i then DIR_NONE K else directions c ! i) \<rparr>)"

text \<open>Lines 189 to 194: the unloaded ants standing on the food become loaded.\<close>

definition take_food :: "nat list \<Rightarrow> pos \<Rightarrow> colony \<Rightarrow> error + colony" where
  "take_food unloaded_ants pos_food c =
     (let n = length (seeds c) in
      if \<not> (\<forall>i \<in> set unloaded_ants. path_ok (historic_path c) i (age c ! i)) then Inl IndexError
      else
        let ants_at_food = filter (\<lambda>i. old_pos_ants c i = pos_food) unloaded_ants
        in Inr (c\<lparr> is_loaded := tab n (\<lambda>i. if i \<in> set ants_at_food then True
                                            else is_loaded c ! i) \<rparr>))"

definition choices :: "colony \<Rightarrow> nat \<Rightarrow> real" where
  "choices c i = real_of_int (seeds c ! i) / 2147483647"

text \<open>Line 89: the seed of every unloaded ant moves on by one step.\<close>

definition seeded :: "colony \<Rightarrow> nat list \<Rightarrow> colony" where
  "seeded c unloaded_ants =
     c\<lparr> seeds := tab (length (seeds c))
                    (\<lambda>i. if i \<in> set unloaded_ants then lcg (seeds c ! i) else seeds c ! i) \<rparr>"

text \<open>Lines 125 and 160: the unloaded ants that explore at random, and those that follow
  the scent.\<close>

definition exploring_ants :: "colony \<Rightarrow> senses \<Rightarrow> nat list \<Rightarrow> nat list" where
  "exploring_ants c S unloaded_ants =
     filter (\<lambda>i. choices c i \<le> exploration_coefs \<or> max_pheromones S ! i = 0) unloaded_ants"

definition following_ants :: "colony \<Rightarrow> senses \<Rightarrow> nat list \<Rightarrow> nat list" where
  "following_ants c S unloaded_ants =
     filter (\<lambda>i. choices c i > exploration_coefs \<and> max_pheromones S ! i > 0) unloaded_ants"

definition explore ::
  "nat \<Rightarrow> codes \<Rightarrow> colony \<Rightarrow> nat list \<Rightarrow> int list list \<Rightarrow> pos \<Rightarrow> pos \<Rightarrow> real list list
     \<Rightarrow> error + colony" where
  "explore fuel K c unloaded_ants the_maze pos_food pos_nest pheromon =
     (if \<not> (\<forall>i \<in> set unloaded_ants. i < length (seeds c)) then Inl IndexError
      else
        let c1 = seeded c unloaded_ants
        in bindE (sense K c1 the_maze pheromon) (\<lambda>S.
           bindE (explore_loop fuel K S (exploring_ants c1 S unloaded_ants)
                    (c1, replicate (length (seeds c)) False)) (\<lambda>cv.
           bindE (follow S (following_ants c1 S unloaded_ants) (fst cv)) (\<lambda>c3.
           take_food unloaded_ants pos_food (grow_old K unloaded_ants pos_nest c3)))))"

subsection \<open>The scent field: deposit and merge\<close>

definition arr_upd :: "'a list list \<Rightarrow> pos \<Rightarrow> 'a \<Rightarrow> 'a list list" where
  "arr_upd a p v =
     (let r = idx (length a) (fst p) in a[r := (a ! r)[idx (length (a ! r)) (snd p) := v]])"

text \<open>
  Modelled from the spec: the module \<open>pheromone\<close> with the method \<open>mark\<close> of the scent
  field is not among the sources. Section 4.2 of the specification: deposit(position,
  exits, snapshot) adds reinforcement at position based on snapshot, not the live field.
  The cell of a maze position lies one row and one column further in the field, because
  of the ghost border. The amount of the reinforcement is left open by the
  specification; it is the parameter \<open>reinforcement\<close>, a function of the snapshot, the
  position and the exits.
\<close>

definition mark ::
  "(real list list \<Rightarrow> pos \<Rightarrow> bool list \<Rightarrow> real) \<Rightarrow> real list list \<Rightarrow> pos \<Rightarrow> bool list
     \<Rightarrow> real list list \<Rightarrow> real list list" where
  "mark reinforcement pheromon the_position exits old_pheromone =
     (let cell = (fst the_position + 1, snd the_position + 1)
      in arr_upd pheromon cell
           (arr_at pheromon cell + reinforcement old_pheromone the_position exits))"

text \<open>
  \<open>Allreduce(MPI.IN_PLACE, buffer, op=MPI.MAX)\<close> over the computing workers: every
  worker ends with the element-wise maximum of the buffers of all of them. \<open>own\<close> is the
  buffer of this worker, \<open>others\<close> are the buffers of the other workers.
\<close>

definition allreduce_max :: "real list \<Rightarrow> real list list \<Rightarrow> error + real list" where
  "allreduce_max own others =
     (if \<exists>b \<in> set others. length b \<noteq> length own then Inl ShapeMismatch
      else Inr (foldl (\<lambda>acc b. map2 max acc b) own others))"

definition flatten :: "'a list list \<Rightarrow> 'a list" where
  "flatten a = concat a"

text \<open>\<open>flat.reshape(a.shape)\<close>: the flat array cut into rows as long as the rows of \<open>a\<close>.\<close>

fun reshape_like :: "'b list list \<Rightarrow> 'a list \<Rightarrow> 'a list list" where
  "reshape_like [] xs = []"
| "reshape_like (r # rs) xs = take (length r) xs # reshape_like rs (drop (length r) xs)"

subsection \<open>advance\<close>

text \<open>
  What one call of \<open>advance\<close> leaves behind: the colony, the returned food counter, the
  count \<open>new_food\<close> handed to \<open>synchronisation_and_send_fonction\<close>, the arguments of the
  calls of \<open>mark\<close> in their order, the copy \<open>old_pheromone\<close>, the field after the calls of
  \<open>mark\<close>, and the field \<open>pheromones.pheromon\<close> at the end.
\<close>

record tick =
  colony_of :: colony
  food_counter_of :: int
  new_food_of :: int
  marks_of :: "(pos \<times> bool list) list"
  snapshot_of :: "real list list"
  marked_of :: "real list list"
  pheromon_of :: "real list list"

definition loaded_ants_of :: "colony \<Rightarrow> nat list" where
  "loaded_ants_of c = filter (\<lambda>i. is_loaded c ! i) [0..<length (is_loaded c)]"

definition unloaded_ants_of :: "colony \<Rightarrow> nat list" where
  "unloaded_ants_of c = filter (\<lambda>i. \<not> is_loaded c ! i) [0..<length (is_loaded c)]"

text \<open>Lines 197 to 206: the colony part of \<open>advance\<close> and its two counters.\<close>

definition move_ants ::
  "nat \<Rightarrow> codes \<Rightarrow> colony \<Rightarrow> int list list \<Rightarrow> pos \<Rightarrow> pos \<Rightarrow> real list list \<Rightarrow> int
     \<Rightarrow> error + colony \<times> int \<times> int" where
  "move_ants fuel K c the_maze pos_food pos_nest pheromon food_counter =
     (let loaded_ants = loaded_ants_of c; unloaded_ants = unloaded_ants_of c
      in bindE (if loaded_ants \<noteq> []
                then bindE (return_to_nest c loaded_ants pos_nest 0)
                       (\<lambda>r. Inr (fst r, snd r, snd r - food_counter))
                else Inr (c, food_counter, 0)) (\<lambda>t.
         bindE (if unloaded_ants \<noteq> []
                then explore fuel K (fst t) unloaded_ants the_maze pos_food pos_nest pheromon
                else Inr (fst t)) (\<lambda>c2. Inr (c2, snd t))))"

text \<open>Lines 208 to 216: the argument list of the calls of \<open>mark\<close>, one call per ant.\<close>

definition mark_calls :: "codes \<Rightarrow> colony \<Rightarrow> int list list \<Rightarrow> error + (pos \<times> bool list) list" where
  "mark_calls K c the_maze =
     (let n = length (seeds c) in
      if \<not> (\<forall>i < n. path_ok (historic_path c) i (age c ! i)) then Inl IndexError
      else if \<not> (\<forall>i < n. arr_ok the_maze (old_pos_ants c i)) then Inl IndexError
      else
        let cell = (\<lambda>i. arr_at the_maze (old_pos_ants c i))
        in Inr (tab n (\<lambda>i. (old_pos_ants c i,
                  [cell i AND NORTH K > 0, cell i AND EAST K > 0,
                   cell i AND WEST K > 0, cell i AND SOUTH K > 0]))))"

definition mark_all ::
  "(real list list \<Rightarrow> pos \<Rightarrow> bool list \<Rightarrow> real) \<Rightarrow> (pos \<times> bool list) list \<Rightarrow> real list list
     \<Rightarrow> real list list \<Rightarrow> real list list" where
  "mark_all reinforcement calls old_pheromone pheromon =
     fold (\<lambda>pe ph. mark reinforcement ph (fst pe) (snd pe) old_pheromone) calls pheromon"

definition advance ::
  "nat \<Rightarrow> codes \<Rightarrow> (real list list \<Rightarrow> pos \<Rightarrow> bool list \<Rightarrow> real) \<Rightarrow> real list list list \<Rightarrow> colony
     \<Rightarrow> int list list \<Rightarrow> pos \<Rightarrow> pos \<Rightarrow> real list list \<Rightarrow> int \<Rightarrow> error + tick" where
  "advance fuel K reinforcement others c the_maze pos_food pos_nest pheromon food_counter =
     bindE (move_ants fuel K c the_maze pos_food pos_nest pheromon food_counter) (\<lambda>m.
     bindE (mark_calls K (fst m) the_maze) (\<lambda>calls.
       let old_pheromone = pheromon;
           marked = mark_all reinforcement calls old_pheromone pheromon
       in bindE (allreduce_max (flatten old_pheromone) (map flatten others)) (\<lambda>merged.
          Inr \<lparr> colony_of = fst m, food_counter_of = fst (snd m), new_food_of = snd (snd m),
                marks_of = calls, snapshot_of = old_pheromone, marked_of = marked,
                pheromon_of = reshape_like old_pheromone merged \<rparr>)))"

subsection \<open>Notions for the statements\<close>

text \<open>
  In one pass of the loop, ant \<open>i\<close> has its move accepted: it explores, has no valid move
  yet, and the direction its advanced seed gives is valid.
\<close>

definition accepts :: "codes \<Rightarrow> senses \<Rightarrow> nat list \<Rightarrow> colony \<Rightarrow> bool list \<Rightarrow> nat \<Rightarrow> bool" where
  "accepts K S E c vm i \<longleftrightarrow>
     i \<in> set E \<and> \<not> vm ! i \<and> valid_move K S c i (lcg (seeds c ! i) mod 4)"

text \<open>Ant \<open>i\<close> reaches the end of its life in this call of \<open>explore\<close> (line 182).\<close>

definition dying :: "nat list \<Rightarrow> colony \<Rightarrow> nat \<Rightarrow> bool" where
  "dying U c i \<longleftrightarrow> (if i \<in> set U then age c ! i + 1 else age c ! i) = max_life c ! i"

text \<open>
  What the loop leaves for an exploring ant \<open>i\<close>: the move in one accepted direction
  \<open>d\<close>, written into its history behind its current position, and \<open>d\<close> as its direction.
\<close>

definition moved_by :: "codes \<Rightarrow> senses \<Rightarrow> colony \<Rightarrow> colony \<Rightarrow> nat \<Rightarrow> int \<Rightarrow> bool" where
  "moved_by K S c c2 i d \<longleftrightarrow>
     0 \<le> d \<and> d < 4 \<and> valid_move K S c i d \<and> directions c2 ! i = d
     \<and> historic_path c2 ! i = path_set (historic_path c) i (age c ! i + 1)
                                  (new_pos K S i d (old_pos_ants c i))
     \<and> path_ok (historic_path c) i (age c ! i) \<and> path_ok (historic_path c) i (age c ! i + 1)"

text \<open>
  What the end of \<open>explore\<close> (lines 177 to 187) makes of ant \<open>i\<close> whose history row and
  direction were \<open>row\<close> and \<open>d\<close> after the moves.
\<close>

definition aged :: "codes \<Rightarrow> nat list \<Rightarrow> pos \<Rightarrow> colony \<Rightarrow> colony \<Rightarrow> nat \<Rightarrow> pos list \<Rightarrow> int \<Rightarrow> bool" where
  "aged K U nest c c' i row d \<longleftrightarrow>
     age c' ! i = (if dying U c i then 0 else if i \<in> set U then age c ! i + 1 else age c ! i)
     \<and> historic_path c' ! i = (if dying U c i then row[0 := nest] else row)
     \<and> directions c' ! i = (if dying U c i then DIR_NONE K else d)
     \<and> max_life c' = max_life c \<and> length (seeds c') = length (seeds c)"

text \<open>
  In a call of \<open>explore\<close>, ant \<open>i\<close> explores at random, or follows the scent; and the
  number of exits the call counts for the cell of ant \<open>i\<close> (line 130).
\<close>

definition explores :: "codes \<Rightarrow> colony \<Rightarrow> nat list \<Rightarrow> int list list \<Rightarrow> real list list \<Rightarrow> nat \<Rightarrow> bool" where
  "explores K c U the_maze pheromon i \<longleftrightarrow>
     (case sense K (seeded c U) the_maze pheromon of
        Inl e \<Rightarrow> False
      | Inr S \<Rightarrow> i \<in> set (exploring_ants (seeded c U) S U))"

definition follows :: "codes \<Rightarrow> colony \<Rightarrow> nat list \<Rightarrow> int list list \<Rightarrow> real list list \<Rightarrow> nat \<Rightarrow> bool" where
  "follows K c U the_maze pheromon i \<longleftrightarrow>
     (case sense K (seeded c U) the_maze pheromon of
        Inl e \<Rightarrow> False
      | Inr S \<Rightarrow> i \<in> set (following_ants (seeded c U) S U))"

definition exits_at :: "codes \<Rightarrow> colony \<Rightarrow> nat list \<Rightarrow> int list list \<Rightarrow> real list list \<Rightarrow> nat \<Rightarrow> nat" where
  "exits_at K c U the_maze pheromon i =
     (case sense K (seeded c U) the_maze pheromon of Inl e \<Rightarrow> 0 | Inr S \<Rightarrow> nb_exits S i)"

text \<open>
  The six arrays of a colony have one entry per ant. What holds for ant \<open>i\<close> between two
  ticks: its age is at least 0 and below its life, it is older than 0 when it carries
  food, and its history starts at the nest.
\<close>

definition wf_colony :: "colony \<Rightarrow> bool" where
  "wf_colony c \<longleftrightarrow>
     length (is_loaded c) = length (seeds c) \<and> length (max_life c) = length (seeds c)
     \<and> length (age c) = length (seeds c) \<and> length (historic_path c) = length (seeds c)
     \<and> length (directions c) = length (seeds c)"

definition ant_inv :: "pos \<Rightarrow> colony \<Rightarrow> nat \<Rightarrow> bool" where
  "ant_inv pos_nest c i \<longleftrightarrow>
     0 \<le> age c ! i \<and> age c ! i < max_life c ! i \<and> (is_loaded c ! i \<longrightarrow> 1 \<le> age c ! i)
     \<and> historic_path c ! i \<noteq> [] \<and> historic_path c ! i ! 0 = pos_nest"

definition colony_inv :: "pos \<Rightarrow> colony \<Rightarrow> bool" where
  "colony_inv pos_nest c \<longleftrightarrow> wf_colony c \<and> (\<forall>i < length (seeds c). ant_inv pos_nest c i)"

text \<open>
  The colonies at the start of a tick, as the main loop produces them: the colony built at
  the nest, and every colony that a completed call of \<open>advance\<close> leaves. The scent field,
  the counter and the fuel of each tick are arbitrary.
\<close>

inductive started :: "codes \<Rightarrow> int list list \<Rightarrow> pos \<Rightarrow> pos \<Rightarrow> colony \<Rightarrow> bool"
  for K :: codes and the_maze :: "int list list" and pos_food :: pos and pos_nest :: pos where
  fresh: "started K the_maze pos_food pos_nest (Colony K nb_ants pos_nest max_life0)"
| ticked: "started K the_maze pos_food pos_nest c \<Longrightarrow>
     advance fuel K reinforcement others c the_maze pos_food pos_nest pheromon food_counter = Inr t \<Longrightarrow>
     started K the_maze pos_food pos_nest (colony_of t)"

text \<open>
  What ants.py relies on in the direction codes: a direction drawn as \<open>seed mod 4\<close> is one
  of the four codes, the four codes differ, \<open>3 - d\<close> is the code of the direction opposite
  to \<open>d\<close>, and the code for no direction is none of the four.
\<close>

definition codes_ok :: "codes \<Rightarrow> bool" where
  "codes_ok K \<longleftrightarrow>
     distinct [DIR_NORTH K, DIR_EAST K, DIR_SOUTH K, DIR_WEST K]
     \<and> set [DIR_NORTH K, DIR_EAST K, DIR_SOUTH K, DIR_WEST K] \<subseteq> {0, 1, 2, 3}
     \<and> DIR_NORTH K + DIR_SOUTH K = 3 \<and> DIR_EAST K + DIR_WEST K = 3
     \<and> DIR_NONE K \<notin> {0, 1, 2, 3}"

text \<open>The exact reverse of a direction, in the words of the specification.\<close>

definition opposite :: "codes \<Rightarrow> int \<Rightarrow> int" where
  "opposite K d =
     (if d = DIR_NORTH K then DIR_SOUTH K
      else if d = DIR_SOUTH K then DIR_NORTH K
      else if d = DIR_EAST K then DIR_WEST K
      else if d = DIR_WEST K then DIR_EAST K
      else DIR_NONE K)"







definition field_nonneg :: "real list list \<Rightarrow> bool" where
  "field_nonneg pheromon \<longleftrightarrow> (\<forall>row \<in> set pheromon. \<forall>x \<in> set row. 0 \<le> x)"


text \<open>
  The colonies at the start of a tick when every tick is given a nonnegative field.
\<close>

inductive foraged :: "codes \<Rightarrow> int list list \<Rightarrow> pos \<Rightarrow> pos \<Rightarrow> colony \<Rightarrow> bool"
  for K :: codes and the_maze :: "int list list" and pos_food :: pos and pos_nest :: pos where
  built: "foraged K the_maze pos_food pos_nest (Colony K nb_ants pos_nest max_life0)"
| tick: "foraged K the_maze pos_food pos_nest c \<Longrightarrow> field_nonneg pheromon \<Longrightarrow>
     advance fuel K reinforcement others c the_maze pos_food pos_nest pheromon food_counter = Inr t \<Longrightarrow>
     foraged K the_maze pos_food pos_nest (colony_of t)"

subsection \<open>A small colony for the examples\<close>

text \<open>
  The codes the examples use: the exit bits 1, 2, 4, 8 and the directions north 0, east 1,
  west 2, south 3, none -1. The maze of the examples is a corridor of two cells, the left
  one open to the east, the right one open to the west; its field with the ghost border
  has three rows and four columns.
\<close>

definition codes0 :: codes where
  "codes0 = \<lparr> NORTH = 1, EAST = 2, SOUTH = 4, WEST = 8, DIR_NONE = - 1, DIR_NORTH = 0,
              DIR_EAST = 1, DIR_SOUTH = 3, DIR_WEST = 2 \<rparr>"

definition corridor :: "int list list" where
  "corridor = [[2, 8]]"

definition no_scent :: "real list list" where
  "no_scent = [[0, 0, 0, 0], [0, 0, 0, 0], [0, 0, 0, 0]]"

definition unit_deposit :: "real list list \<Rightarrow> pos \<Rightarrow> bool list \<Rightarrow> real" where
  "unit_deposit old p exits = 1"

text \<open>
  A second maze: four cells in a ring, with a field without scent. The colony
  \<open>two_ants\<close> is what two ants built at the nest (0, 0) with a life of 4 are after one
  tick with the food at (0, 1): the first ant stands on the food and is loaded, the second
  went south.
\<close>

definition ring :: "int list list" where
  "ring = [[6, 12], [3, 9]]"

definition ring_no_scent :: "real list list" where
  "ring_no_scent = [[0, 0, 0, 0], [0, 0, 0, 0], [0, 0, 0, 0], [0, 0, 0, 0]]"

definition two_ants :: colony where
  "two_ants = \<lparr> seeds = [1622650073, 1097816499], is_loaded = [True, False],
                max_life = [4, 4], age = [1, 1],
                historic_path = [[(0, 0), (0, 1), (0, 0), (0, 0), (0, 0)],
                                 [(0, 0), (1, 0), (0, 0), (0, 0), (0, 0)]],
                directions = [1, 3] \<rparr>"

definition two_ants_explored :: colony where
  "two_ants_explored = \<lparr> seeds = [984943658, 140734213], is_loaded = [True, False],
                max_life = [4, 4], age = [1, 2],
                historic_path = [[(0, 0), (0, 1), (0, 0), (0, 0), (0, 0)],
                                 [(0, 0), (1, 0), (1, 1), (0, 0), (0, 0)]],
                directions = [1, 1] \<rparr>"

text \<open>
  Two fields for the ring, seen from the nest (0, 0): scent in the cell to the east only,
  and the same scent in the cells to the east and to the south. \<open>one_ant_east\<close> and
  \<open>one_ant_diagonal\<close> are what \<open>explore\<close> makes of one new ant on these fields.
\<close>

definition ring_east_scent :: "real list list" where
  "ring_east_scent = [[0, 0, 0, 0], [0, 0, 1, 0], [0, 0, 0, 0], [0, 0, 0, 0]]"


definition one_ant_east :: colony where
  "one_ant_east = \<lparr> seeds = [282475249], is_loaded = [False], max_life = [4], age = [1],
                    historic_path = [[(0, 0), (0, 1), (0, 0), (0, 0), (0, 0)]],
                    directions = [- 1] \<rparr>"


text \<open>
  One ant with a life of 1 in the corridor, with the food on the nest (0, 0), after its
  first tick.
\<close>

definition home_fed :: colony where
  "home_fed = \<lparr> seeds = [1622650073], is_loaded = [True], max_life = [1], age = [0],
                historic_path = [[(0, 0), (0, 1)]], directions = [- 1] \<rparr>"


section \<open>Properties\<close>

subsection \<open>Tables, errors and the stages of explore, ant by ant\<close>

lemma length_tab [simp]: "length (tab n f) = n"
  by (simp add: tab_def)

lemma nth_tab [simp]: "i < n \<Longrightarrow> tab n f ! i = f i"
  by (simp add: tab_def)

lemma bindE_Inr [simp]: "bindE (Inr x) f = f x"
  by (simp add: bindE_def)

lemma bindE_Inl [simp]: "bindE (Inl e) f = Inl e"
  by (simp add: bindE_def)

lemma bindE_Inr_iff: "bindE m f = Inr y \<longleftrightarrow> (\<exists>x. m = Inr x \<and> f x = Inr y)"
  by (cases m) auto

lemma old_pos_ants_seeds [simp]: "old_pos_ants (c\<lparr>seeds := x\<rparr>) = old_pos_ants c"
  by (simp add: old_pos_ants_def fun_eq_iff)

lemma valid_move_seeds [simp]: "valid_move K S (c\<lparr>seeds := x\<rparr>) = valid_move K S c"
  by (simp add: valid_move_def fun_eq_iff)

declare explore_loop.simps [simp del]

lemma in_ind_ants_to_move: "i \<in> set (ind_ants_to_move E vm) \<longleftrightarrow> i \<in> set E \<and> \<not> vm ! i"
  by (simp add: ind_ants_to_move_def)

lemma nth_checked_moves:
  "i < length (seeds c) \<Longrightarrow> checked_moves K S E c vm ! i =
     (if i \<in> set E \<and> \<not> vm ! i then valid_move K S c i (seeds c ! i mod 4) else vm ! i)"
  by (simp add: checked_moves_def in_ind_ants_to_move)

lemma length_checked_moves [simp]: "length (checked_moves K S E c vm) = length (seeds c)"
  by (simp add: checked_moves_def)

lemma in_ind_valid_moves:
  "i < length (seeds c) \<Longrightarrow>
   i \<in> set (ind_valid_moves E vm (checked_moves K S E c vm)) \<longleftrightarrow>
     i \<in> set E \<and> \<not> vm ! i \<and> valid_move K S c i (seeds c ! i mod 4)"
  by (auto simp: ind_valid_moves_def in_ind_ants_to_move nth_checked_moves)

lemma try_moves_frame:
  assumes "try_moves K S E (c, vm) = Inr (c', vm')"
  shows "seeds c' = map lcg (seeds c)" "age c' = age c" "is_loaded c' = is_loaded c"
    "max_life c' = max_life c" "length (historic_path c') = length (seeds c)"
    "length (directions c') = length (seeds c)" "length vm' = length (seeds c)"
    "\<forall>j \<in> set E. j < length (seeds c)"
  using assms by (auto simp: try_moves_def Let_def split: if_splits)

lemma try_moves_nth:
  assumes "try_moves K S E (c, vm) = Inr (c', vm')" "i < length (seeds c)"
  shows "vm' ! i = (if i \<in> set E \<and> \<not> vm ! i
                    then valid_move K S c i (lcg (seeds c ! i) mod 4) else vm ! i)"
    "directions c' ! i = (if accepts K S E c vm i then lcg (seeds c ! i) mod 4 else directions c ! i)"
    "historic_path c' ! i = (if accepts K S E c vm i
        then path_set (historic_path c) i (age c ! i + 1)
               (new_pos K S i (lcg (seeds c ! i) mod 4) (old_pos_ants c i))
        else historic_path c ! i)"
    "accepts K S E c vm i \<Longrightarrow> path_ok (historic_path c) i (age c ! i + 1)"
    "i \<in> set E \<Longrightarrow> \<not> vm ! i \<Longrightarrow> path_ok (historic_path c) i (age c ! i)"
proof -
  let ?c1 = "c\<lparr>seeds := map lcg (seeds c)\<rparr>"
  have n: "i < length (seeds ?c1)" using assms(2) by simp
  have acc: "i \<in> set (ind_valid_moves E vm (checked_moves K S E ?c1 vm)) \<longleftrightarrow> accepts K S E c vm i"
    using in_ind_valid_moves [OF n, of E vm K S] assms(2) by (simp add: accepts_def)
  show "vm' ! i = (if i \<in> set E \<and> \<not> vm ! i
                    then valid_move K S c i (lcg (seeds c ! i) mod 4) else vm ! i)"
    using assms nth_checked_moves [OF n, of K S E vm]
    by (auto simp: try_moves_def Let_def split: if_splits)
  show "directions c' ! i = (if accepts K S E c vm i then lcg (seeds c ! i) mod 4 else directions c ! i)"
    using assms acc by (auto simp: try_moves_def Let_def split: if_splits)
  show "historic_path c' ! i = (if accepts K S E c vm i
        then path_set (historic_path c) i (age c ! i + 1)
               (new_pos K S i (lcg (seeds c ! i) mod 4) (old_pos_ants c i))
        else historic_path c ! i)"
    using assms acc by (auto simp: try_moves_def Let_def split: if_splits)
  show "accepts K S E c vm i \<Longrightarrow> path_ok (historic_path c) i (age c ! i + 1)"
    using assms acc by (auto simp: try_moves_def Let_def split: if_splits)
  show "i \<in> set E \<Longrightarrow> \<not> vm ! i \<Longrightarrow> path_ok (historic_path c) i (age c ! i)"
    using assms by (auto simp: try_moves_def Let_def in_ind_ants_to_move split: if_splits)
qed

lemma explore_loop_rule:
  assumes "explore_loop fuel K S E cv = Inr cv'" "P cv"
    and "\<And>x y. P x \<Longrightarrow> try_moves K S E x = Inr y \<Longrightarrow> P y"
  shows "P cv' \<and> (\<forall>i \<in> set E. snd cv' ! i)"
  using assms(1,2)
proof (induction fuel arbitrary: cv)
  case 0
  then show ?case by (auto simp: explore_loop.simps split: if_splits)
next
  case (Suc fuel)
  show ?case
  proof (cases "\<forall>i \<in> set E. snd cv ! i")
    case True
    with Suc.prems show ?thesis by (simp add: explore_loop.simps)
  next
    case False
    with Suc.prems obtain y where y: "try_moves K S E cv = Inr y"
      "explore_loop fuel K S E y = Inr cv'"
      by (auto simp: explore_loop.simps [of "Suc fuel"] bindE_Inr_iff)
    from assms(3) [OF Suc.prems(2) y(1)] have "P y" .
    from Suc.IH [OF y(2) this] show ?thesis .
  qed
qed


lemma explore_loop_passes:
  assumes "explore_loop fuel K S E cv = Inr cv'"
  shows "\<exists>k \<le> fuel. seeds (fst cv') = map (lcg ^^ k) (seeds (fst cv))
           \<and> (k = 0 \<longleftrightarrow> (\<forall>i \<in> set E. snd cv ! i))"
  using assms
proof (induction fuel arbitrary: cv)
  case 0
  then show ?case by (auto simp: explore_loop.simps split: if_splits)
next
  case (Suc fuel)
  show ?case
  proof (cases "\<forall>i \<in> set E. snd cv ! i")
    case True
    with Suc.prems have "cv' = cv" by (simp add: explore_loop.simps)
    with True show ?thesis by (intro exI [of _ 0]) simp
  next
    case False
    with Suc.prems obtain y where y: "try_moves K S E cv = Inr y"
      "explore_loop fuel K S E y = Inr cv'"
      by (auto simp: explore_loop.simps [of "Suc fuel"] bindE_Inr_iff)
    from y(1) have sy: "seeds (fst y) = map lcg (seeds (fst cv))"
      using try_moves_frame(1) [of K S E "fst cv" "snd cv" "fst y" "snd y"] by simp
    from Suc.IH [OF y(2)] obtain k where k: "k \<le> fuel"
      "seeds (fst cv') = map (lcg ^^ k) (seeds (fst y))" by blast
    have "seeds (fst cv') = map (lcg ^^ Suc k) (seeds (fst cv))"
      by (simp add: k(2) sy funpow_swap1)
    with k(1) False show ?thesis by (intro exI [of _ "Suc k"]) simp
  qed
qed

lemma follow_frame:
  assumes "follow S F c = Inr c'"
  shows "seeds c' = seeds c" "age c' = age c" "is_loaded c' = is_loaded c"
    "max_life c' = max_life c" "directions c' = directions c"
    "length (historic_path c') = length (seeds c)"
  using assms by (auto simp: follow_def Let_def split: if_splits)

lemma follow_nth:
  assumes "follow S F c = Inr c'" "i < length (seeds c)"
  shows "historic_path c' ! i = (if i \<in> set F
           then path_set (historic_path c) i (age c ! i + 1) (follow_pos S i (old_pos_ants c i))
           else historic_path c ! i)"
    "i \<in> set F \<Longrightarrow> path_ok (historic_path c) i (age c ! i)"
    "i \<in> set F \<Longrightarrow> path_ok (historic_path c) i (age c ! i + 1)"
  using assms by (auto simp: follow_def Let_def split: if_splits)

lemma grow_old_frame:
  "seeds (grow_old K U nest c) = seeds c" "is_loaded (grow_old K U nest c) = is_loaded c"
  "max_life (grow_old K U nest c) = max_life c"
  "length (age (grow_old K U nest c)) = length (seeds c)"
  "length (historic_path (grow_old K U nest c)) = length (seeds c)"
  "length (directions (grow_old K U nest c)) = length (seeds c)"
  by (simp_all add: grow_old_def Let_def)

lemma grow_old_nth:
  assumes "i < length (seeds c)"
  shows "age (grow_old K U nest c) ! i =
           (if dying U c i then 0 else if i \<in> set U then age c ! i + 1 else age c ! i)"
    "historic_path (grow_old K U nest c) ! i =
           (if dying U c i then (historic_path c ! i)[0 := nest] else historic_path c ! i)"
    "directions (grow_old K U nest c) ! i =
           (if dying U c i then DIR_NONE K else directions c ! i)"
  using assms by (auto simp: grow_old_def Let_def dying_def)

lemma take_food_frame:
  assumes "take_food U food c = Inr c'"
  shows "seeds c' = seeds c" "age c' = age c" "historic_path c' = historic_path c"
    "max_life c' = max_life c" "directions c' = directions c"
    "length (is_loaded c') = length (seeds c)"
  using assms by (auto simp: take_food_def Let_def split: if_splits)

lemma take_food_nth:
  assumes "take_food U food c = Inr c'" "i < length (seeds c)"
  shows "is_loaded c' ! i = (if i \<in> set U \<and> old_pos_ants c i = food then True else is_loaded c ! i)"
    "i \<in> set U \<Longrightarrow> path_ok (historic_path c) i (age c ! i)"
  using assms by (auto simp: take_food_def Let_def split: if_splits)

lemma seeded_frame [simp]:
  "age (seeded c U) = age c" "is_loaded (seeded c U) = is_loaded c"
  "max_life (seeded c U) = max_life c" "historic_path (seeded c U) = historic_path c"
  "directions (seeded c U) = directions c" "length (seeds (seeded c U)) = length (seeds c)"
  by (simp_all add: seeded_def)

lemma seeded_nth:
  "i < length (seeds c) \<Longrightarrow>
   seeds (seeded c U) ! i = (if i \<in> set U then lcg (seeds c ! i) else seeds c ! i)"
  by (simp add: seeded_def)

lemma explore_Inr:
  assumes "explore fuel K c U mz food nest ph = Inr c'"
  obtains S c2 vm c3 where
    "\<forall>i \<in> set U. i < length (seeds c)"
    "sense K (seeded c U) mz ph = Inr S"
    "explore_loop fuel K S (exploring_ants (seeded c U) S U)
       (seeded c U, replicate (length (seeds c)) False) = Inr (c2, vm)"
    "follow S (following_ants (seeded c U) S U) c2 = Inr c3"
    "take_food U food (grow_old K U nest c3) = Inr c'"
  using assms
  by (auto simp: explore_def Let_def bindE_Inr_iff split: if_splits)

lemma exploring_ants_subset: "set (exploring_ants c S U) \<subseteq> set U"
  by (auto simp: exploring_ants_def)

lemma following_ants_subset: "set (following_ants c S U) \<subseteq> set U"
  by (auto simp: following_ants_def)

lemma exploring_following_disjoint:
  "i \<in> set (following_ants c S U) \<Longrightarrow> i \<notin> set (exploring_ants c S U)"
  by (auto simp: exploring_ants_def following_ants_def)

lemma explore_loop_frame:
  assumes "explore_loop fuel K S E (c, vm) = Inr (c2, vm2)"
  shows "age c2 = age c" "is_loaded c2 = is_loaded c" "max_life c2 = max_life c"
    "length (seeds c2) = length (seeds c)"
proof -
  let ?P = "\<lambda>x. age (fst x) = age c \<and> is_loaded (fst x) = is_loaded c
     \<and> max_life (fst x) = max_life c \<and> length (seeds (fst x)) = length (seeds c)"
  have step: "\<And>x y. ?P x \<Longrightarrow> try_moves K S E x = Inr y \<Longrightarrow> ?P y"
  proof -
    fix x y :: "colony \<times> bool list"
    assume P: "?P x" and t: "try_moves K S E x = Inr y"
    from t have t': "try_moves K S E (fst x, snd x) = Inr (fst y, snd y)" by simp
    from try_moves_frame [OF t'] P show "?P y" by simp
  qed
  have "?P (c2, vm2) \<and> (\<forall>i \<in> set E. snd (c2, vm2) ! i)"
  proof (rule explore_loop_rule [where P = ?P])
    show "explore_loop fuel K S E (c, vm) = Inr (c2, vm2)" by fact
    show "?P (c, vm)" by simp
    show "\<And>x y. ?P x \<Longrightarrow> try_moves K S E x = Inr y \<Longrightarrow> ?P y" by (rule step)
  qed
  then show "age c2 = age c" "is_loaded c2 = is_loaded c" "max_life c2 = max_life c"
    "length (seeds c2) = length (seeds c)"
    by simp_all
qed

lemma explore_loop_other:
  assumes "explore_loop fuel K S E (c, vm) = Inr (c2, vm2)" "i < length (seeds c)" "i \<notin> set E"
  shows "directions c2 ! i = directions c ! i" "historic_path c2 ! i = historic_path c ! i"
proof -
  let ?P = "\<lambda>x. length (seeds (fst x)) = length (seeds c)
     \<and> directions (fst x) ! i = directions c ! i
     \<and> historic_path (fst x) ! i = historic_path c ! i"
  have step: "\<And>x y. ?P x \<Longrightarrow> try_moves K S E x = Inr y \<Longrightarrow> ?P y"
  proof -
    fix x y :: "colony \<times> bool list"
    assume P: "?P x" and t: "try_moves K S E x = Inr y"
    from t have t': "try_moves K S E (fst x, snd x) = Inr (fst y, snd y)" by simp
    have i: "i < length (seeds (fst x))" using P assms(2) by simp
    have na: "\<not> accepts K S E (fst x) (snd x) i" using assms(3) by (simp add: accepts_def)
    from try_moves_frame(1) [OF t'] try_moves_nth(2,3) [OF t' i] P na show "?P y" by simp
  qed
  have "?P (c2, vm2) \<and> (\<forall>i \<in> set E. snd (c2, vm2) ! i)"
  proof (rule explore_loop_rule [where P = ?P])
    show "explore_loop fuel K S E (c, vm) = Inr (c2, vm2)" by fact
    show "?P (c, vm)" by simp
    show "\<And>x y. ?P x \<Longrightarrow> try_moves K S E x = Inr y \<Longrightarrow> ?P y" by (rule step)
  qed
  then show "directions c2 ! i = directions c ! i" "historic_path c2 ! i = historic_path c ! i"
    by simp_all
qed

lemma valid_move_cong:
  "historic_path x ! i = historic_path c ! i \<Longrightarrow> age x = age c \<Longrightarrow>
   directions x ! i = directions c ! i \<Longrightarrow> valid_move K S x i d = valid_move K S c i d"
  by (simp add: valid_move_def old_pos_ants_def path_at_def)

lemma explore_loop_exploring:
  assumes "explore_loop fuel K S E (c, vm) = Inr (c2, vm2)" "i < length (seeds c)"
    "i \<in> set E" "\<not> vm ! i"
  shows "\<exists>d. moved_by K S c c2 i d"
proof -
  let ?P = "\<lambda>x. length (seeds (fst x)) = length (seeds c) \<and> age (fst x) = age c
     \<and> (if snd x ! i then \<exists>d. moved_by K S c (fst x) i d
         else directions (fst x) ! i = directions c ! i
              \<and> historic_path (fst x) ! i = historic_path c ! i)"
  have step: "\<And>x y. ?P x \<Longrightarrow> try_moves K S E x = Inr y \<Longrightarrow> ?P y"
  proof -
    fix x y :: "colony \<times> bool list"
    assume P: "?P x" and t: "try_moves K S E x = Inr y"
    from t have t': "try_moves K S E (fst x, snd x) = Inr (fst y, snd y)" by simp
    have i: "i < length (seeds (fst x))" using P assms(2) by simp
    note fr = try_moves_frame [OF t'] and nt = try_moves_nth [OF t' i]
    show "?P y"
    proof (cases "snd x ! i")
      case True
      then have na: "\<not> accepts K S E (fst x) (snd x) i" by (simp add: accepts_def)
      from True P obtain d where "moved_by K S c (fst x) i d" by auto
      then have "moved_by K S c (fst y) i d"
        using nt(2,3) na by (simp add: moved_by_def)
      moreover have "snd y ! i" using nt(1) True by simp
      ultimately show ?thesis using fr P by auto
    next
      case False
      with P have same: "directions (fst x) ! i = directions c ! i"
        "historic_path (fst x) ! i = historic_path c ! i" "age (fst x) = age c" by auto
      let ?d = "lcg (seeds (fst x) ! i) mod 4"
      have vm: "valid_move K S (fst x) i ?d = valid_move K S c i ?d"
        using same by (intro valid_move_cong) simp_all
      show ?thesis
      proof (cases "valid_move K S c i ?d")
        case True
        then have acc: "accepts K S E (fst x) (snd x) i"
          using False assms(3) vm by (simp add: accepts_def)
        have "moved_by K S c (fst y) i ?d"
          unfolding moved_by_def
          using nt(2,3,4) [simplified acc] nt(5) [OF assms(3) False] True same acc
          by (simp add: path_set_def path_ok_def old_pos_ants_def path_at_def)
        moreover have "snd y ! i" using nt(1) False assms(3) vm True by simp
        ultimately show ?thesis using fr P by auto
      next
        case no: False
        then have na: "\<not> accepts K S E (fst x) (snd x) i" using vm by (simp add: accepts_def)
        have "\<not> snd y ! i" using nt(1) False assms(3) vm no by simp
        then show ?thesis using nt(2,3) na same fr P by simp
      qed
    qed
  qed
  have init: "?P (c, vm)" using assms(4) by simp
  have "?P (c2, vm2) \<and> (\<forall>i \<in> set E. snd (c2, vm2) ! i)"
  proof (rule explore_loop_rule [where P = ?P])
    show "explore_loop fuel K S E (c, vm) = Inr (c2, vm2)" by fact
    show "?P (c, vm)" by (rule init)
    show "\<And>x y. ?P x \<Longrightarrow> try_moves K S E x = Inr y \<Longrightarrow> ?P y" by (rule step)
  qed
  then show ?thesis using assms(3) by auto
qed


lemma dying_cong:
  "age x = age c \<Longrightarrow> max_life x = max_life c \<Longrightarrow> dying U x i = dying U c i"
  by (simp add: dying_def)

lemma explore_stages:
  assumes "explore fuel K c U mz food nest ph = Inr c'" "sense K (seeded c U) mz ph = Inr S"
  obtains c2 vm c3 where
    "\<forall>i \<in> set U. i < length (seeds c)"
    "explore_loop fuel K S (exploring_ants (seeded c U) S U)
       (seeded c U, replicate (length (seeds c)) False) = Inr (c2, vm)"
    "follow S (following_ants (seeded c U) S U) c2 = Inr c3"
    "take_food U food (grow_old K U nest c3) = Inr c'"
    "age c3 = age c" "max_life c3 = max_life c" "length (seeds c3) = length (seeds c)"
    "is_loaded c3 = is_loaded c" "directions c3 = directions c2"
proof -
  from assms(1) obtain S' c2 vm c3 where
    U: "\<forall>i \<in> set U. i < length (seeds c)"
    and S: "sense K (seeded c U) mz ph = Inr S'"
    and loop: "explore_loop fuel K S' (exploring_ants (seeded c U) S' U)
       (seeded c U, replicate (length (seeds c)) False) = Inr (c2, vm)"
    and fol: "follow S' (following_ants (seeded c U) S' U) c2 = Inr c3"
    and tf: "take_food U food (grow_old K U nest c3) = Inr c'"
    by (rule explore_Inr)
  from S assms(2) have [simp]: "S' = S" by simp
  note lf = explore_loop_frame [OF loop] and ff = follow_frame [OF fol]
  show thesis
    by (rule that [of c2 vm c3]) (use U loop fol tf lf ff in simp_all)
qed

lemma explore_aged:
  assumes "take_food U food (grow_old K U nest c3) = Inr c'"
    "age c3 = age c" "max_life c3 = max_life c" "length (seeds c3) = length (seeds c)"
    "i < length (seeds c)"
  shows "aged K U nest c c' i (historic_path c3 ! i) (directions c3 ! i)"
proof -
  note tf = take_food_frame [OF assms(1)]
  have i: "i < length (seeds c3)" using assms by simp
  have d: "dying U c3 i = dying U c i" using assms by (intro dying_cong) simp_all
  show ?thesis
    unfolding aged_def
    using tf grow_old_nth [OF i, of K U nest] d assms(2-4)
    by (simp add: grow_old_frame)
qed

lemma explore_exploring:
  assumes "explore fuel K c U mz food nest ph = Inr c'" "sense K (seeded c U) mz ph = Inr S"
    "i \<in> set (exploring_ants (seeded c U) S U)"
  shows "\<exists>d. 0 \<le> d \<and> d < 4 \<and> valid_move K S c i d
      \<and> path_ok (historic_path c) i (age c ! i) \<and> path_ok (historic_path c) i (age c ! i + 1)
      \<and> aged K U nest c c' i
           (path_set (historic_path c) i (age c ! i + 1) (new_pos K S i d (old_pos_ants c i))) d"
proof -
  from assms(1,2) obtain c2 vm c3 where
    U: "\<forall>i \<in> set U. i < length (seeds c)"
    and loop: "explore_loop fuel K S (exploring_ants (seeded c U) S U)
       (seeded c U, replicate (length (seeds c)) False) = Inr (c2, vm)"
    and fol: "follow S (following_ants (seeded c U) S U) c2 = Inr c3"
    and tf: "take_food U food (grow_old K U nest c3) = Inr c'"
    and fr: "age c3 = age c" "max_life c3 = max_life c" "length (seeds c3) = length (seeds c)"
      "directions c3 = directions c2"
    by (rule explore_stages)
  have iU: "i \<in> set U" using assms(3) exploring_ants_subset by blast
  then have i: "i < length (seeds c)" using U by blast
  have i1: "i < length (seeds (seeded c U))" using i by simp
  have nv: "\<not> replicate (length (seeds c)) False ! i" using i by simp
  from explore_loop_exploring [OF loop i1 assms(3) nv]
  obtain d where d: "moved_by K S (seeded c U) c2 i d" by blast
  have nf: "i \<notin> set (following_ants (seeded c U) S U)"
    using assms(3) exploring_following_disjoint by blast
  have i2: "i < length (seeds c2)" using explore_loop_frame(4) [OF loop] i by simp
  have h3: "historic_path c3 ! i = historic_path c2 ! i"
    using follow_nth(1) [OF fol i2] nf by simp
  have vm: "valid_move K S (seeded c U) i d = valid_move K S c i d"
    by (intro valid_move_cong) simp_all
  have op: "old_pos_ants (seeded c U) i = old_pos_ants c i"
    by (simp add: old_pos_ants_def)
  from explore_aged [OF tf fr(1-3) i]
  have "aged K U nest c c' i (historic_path c3 ! i) (directions c3 ! i)" .
  with d h3 fr(4) vm op show ?thesis
    by (intro exI [of _ d]) (simp add: moved_by_def)
qed

lemma explore_following:
  assumes "explore fuel K c U mz food nest ph = Inr c'" "sense K (seeded c U) mz ph = Inr S"
    "i \<in> set (following_ants (seeded c U) S U)"
  shows "path_ok (historic_path c) i (age c ! i)" "path_ok (historic_path c) i (age c ! i + 1)"
    "aged K U nest c c' i
       (path_set (historic_path c) i (age c ! i + 1) (follow_pos S i (old_pos_ants c i)))
       (directions c ! i)"
proof -
  from assms(1,2) obtain c2 vm c3 where
    U: "\<forall>i \<in> set U. i < length (seeds c)"
    and loop: "explore_loop fuel K S (exploring_ants (seeded c U) S U)
       (seeded c U, replicate (length (seeds c)) False) = Inr (c2, vm)"
    and fol: "follow S (following_ants (seeded c U) S U) c2 = Inr c3"
    and tf: "take_food U food (grow_old K U nest c3) = Inr c'"
    and fr: "age c3 = age c" "max_life c3 = max_life c" "length (seeds c3) = length (seeds c)"
      "directions c3 = directions c2"
    by (rule explore_stages)
  have iU: "i \<in> set U" using assms(3) following_ants_subset by blast
  then have i: "i < length (seeds c)" using U by blast
  have i1: "i < length (seeds (seeded c U))" using i by simp
  have ne: "i \<notin> set (exploring_ants (seeded c U) S U)"
    using assms(3) exploring_following_disjoint by blast
  note lo = explore_loop_other [OF loop i1 ne] and lf = explore_loop_frame [OF loop]
  have i2: "i < length (seeds c2)" using lf(4) i by simp
  note fn = follow_nth [OF fol i2]
  have op: "old_pos_ants c2 i = old_pos_ants c i"
    using lo(2) lf(1) by (simp add: old_pos_ants_def path_at_def)
  have h3: "historic_path c3 ! i
      = path_set (historic_path c) i (age c ! i + 1) (follow_pos S i (old_pos_ants c i))"
    using fn(1) assms(3) lo(2) lf(1) op by (simp add: path_set_def)
  show "path_ok (historic_path c) i (age c ! i)"
    using fn(2) [OF assms(3)] lo(2) lf(1) by (simp add: path_ok_def)
  show "path_ok (historic_path c) i (age c ! i + 1)"
    using fn(3) [OF assms(3)] lo(2) lf(1) by (simp add: path_ok_def)
  from explore_aged [OF tf fr(1-3) i]
  have "aged K U nest c c' i (historic_path c3 ! i) (directions c3 ! i)" .
  then show "aged K U nest c c' i
       (path_set (historic_path c) i (age c ! i + 1) (follow_pos S i (old_pos_ants c i)))
       (directions c ! i)"
    using h3 fr(4) lo(1) by simp
qed

subsection \<open>The food counters\<close>

text \<open>
  Claim C1. One ant carries food and stands one step from the nest; the counter that comes
  in is 1. The ant reaches the nest and unloads, so the claim asks for the counter 2 and
  for one new delivery. The call answers the counter 1 and hands on no new delivery:
  \<open>advance\<close> calls \<open>return_to_nest\<close> with a counter of 0 and subtracts the old counter
  from what comes back.
\<close>

theorem advance_loses_food_count:
  "(case advance 0 codes0 unit_deposit []
          \<lparr> seeds = [1622650073], is_loaded = [True], max_life = [3], age = [1],
            historic_path = [[(0, 0), (0, 1), (0, 0), (0, 0)]], directions = [1] \<rparr>
          corridor (0, 1) (0, 0) no_scent 1 of
      Inl e \<Rightarrow> False
    | Inr t \<Rightarrow> is_loaded (colony_of t) = [False] \<and> age (colony_of t) = [0]
               \<and> food_counter_of t = 1 \<and> new_food_of t = 0)"
  by code_simp

subsection \<open>The seeds\<close>

lemma two_ants_reached:
  "map_sum id colony_of
     (advance 9 codes0 unit_deposit [] (Colony codes0 2 (0, 0) 4) ring (0, 1) (0, 0)
        ring_no_scent 0) = Inr two_ants"
  by code_simp

lemma two_ants_explore:
  "explore 9 codes0 two_ants [1] ring (0, 1) (0, 0) ring_no_scent = Inr two_ants_explored"
  by code_simp

text \<open>
  Claim C8, as stated, fails: in the colony \<open>two_ants\<close> the first ant is loaded and only
  the second explores, and the call of \<open>explore\<close> changes the seed of the loaded ant.
\<close>

theorem explore_moves_loaded_seed:
  "is_loaded two_ants ! 0 \<and> 0 \<notin> set [1::nat]
   \<and> explore 9 codes0 two_ants [1] ring (0, 1) (0, 0) ring_no_scent = Inr two_ants_explored
   \<and> seeds two_ants_explored ! 0 \<noteq> seeds two_ants ! 0"
  by code_simp

text \<open>
  Claim C8, amended. A call of \<open>explore\<close> that makes \<open>k\<close> passes through the retry loop
  advances the seed of every ant outside \<open>unloaded_ants\<close> \<open>k\<close> times and the seed of every
  ant in \<open>unloaded_ants\<close> \<open>k + 1\<close> times, each time by the recurrence \<open>lcg\<close>; there is no
  pass exactly when no ant explores at random.
\<close>

theorem explore_advances_every_seed:
  assumes "explore fuel K c U mz food nest ph = Inr c'"
  shows "\<exists>S k. sense K (seeded c U) mz ph = Inr S \<and> k \<le> fuel
           \<and> (k = 0 \<longleftrightarrow> exploring_ants (seeded c U) S U = [])
           \<and> (\<forall>i < length (seeds c).
                 seeds c' ! i = (lcg ^^ (if i \<in> set U then Suc k else k)) (seeds c ! i))"
proof -
  from assms obtain S c2 vm c3 where
    U: "\<forall>i \<in> set U. i < length (seeds c)"
    and S: "sense K (seeded c U) mz ph = Inr S"
    and loop: "explore_loop fuel K S (exploring_ants (seeded c U) S U)
       (seeded c U, replicate (length (seeds c)) False) = Inr (c2, vm)"
    and fol: "follow S (following_ants (seeded c U) S U) c2 = Inr c3"
    and tf: "take_food U food (grow_old K U nest c3) = Inr c'"
    by (rule explore_Inr)
  let ?E = "exploring_ants (seeded c U) S U"
  from explore_loop_passes [OF loop] obtain k where k: "k \<le> fuel"
    "seeds c2 = map (lcg ^^ k) (seeds (seeded c U))"
    "k = 0 \<longleftrightarrow> (\<forall>i \<in> set ?E. replicate (length (seeds c)) False ! i)"
    by auto
  have "\<forall>i \<in> set ?E. i < length (seeds c)"
    using U exploring_ants_subset [of "seeded c U" S U] by blast
  then have k0: "k = 0 \<longleftrightarrow> ?E = []"
    using k(3) by (cases ?E) auto
  have seeds': "seeds c' = seeds c2"
    using take_food_frame(1) [OF tf] follow_frame(1) [OF fol] by (simp add: grow_old_frame)
  have "\<forall>i < length (seeds c).
          seeds c' ! i = (lcg ^^ (if i \<in> set U then Suc k else k)) (seeds c ! i)"
    by (simp add: seeds' k(2) seeded_nth funpow_swap1)
  with S k(1) k0 show ?thesis by blast
qed


theorem explore_advances_every_seed_witness:
  "\<exists>S k. sense codes0 (seeded two_ants [1]) ring ring_no_scent = Inr S \<and> k \<le> 9
     \<and> (k = 0 \<longleftrightarrow> exploring_ants (seeded two_ants [1]) S [1] = [])
     \<and> (\<forall>i < length (seeds two_ants).
           seeds two_ants_explored ! i
             = (lcg ^^ (if i \<in> set [1] then Suc k else k)) (seeds two_ants ! i))"
  using explore_advances_every_seed [OF two_ants_explore] .

subsection \<open>Directions\<close>

lemma explores_sense:
  assumes "explores K c U mz ph i"
  obtains S where "sense K (seeded c U) mz ph = Inr S" "i \<in> set (exploring_ants (seeded c U) S U)"
  using assms by (auto simp: explores_def split: sum.splits)

lemma follows_sense:
  assumes "follows K c U mz ph i"
  obtains S where "sense K (seeded c U) mz ph = Inr S" "i \<in> set (following_ants (seeded c U) S U)"
  using assms by (auto simp: follows_def split: sum.splits)

lemma codes0_ok: "codes_ok codes0"
  by (simp add: codes_ok_def codes0_def)

lemma one_ant_east_explore:
  "explore 9 codes0 (Colony codes0 1 (0, 0) 4) [0] ring (1, 1) (0, 0) ring_east_scent
     = Inr one_ant_east"
  by code_simp

text \<open>
  Claim C10. An ant that follows the scent in a call of \<open>explore\<close> keeps its stored
  direction through the move; only the end of its life, in the same call, sets the
  direction to none.
\<close>

theorem scent_following_keeps_direction:
  assumes "explore fuel K c U mz food nest ph = Inr c'" "follows K c U mz ph i"
  shows "directions c' ! i = (if dying U c i then DIR_NONE K else directions c ! i)"
proof -
  from assms(2) obtain S where S: "sense K (seeded c U) mz ph = Inr S"
    "i \<in> set (following_ants (seeded c U) S U)"
    by (rule follows_sense)
  from explore_following(3) [OF assms(1) S] show ?thesis by (simp add: aged_def)
qed

theorem scent_following_keeps_direction_witness:
  "follows codes0 (Colony codes0 1 (0, 0) 4) [0] ring ring_east_scent 0
   \<and> directions one_ant_east ! 0 =
       (if dying [0] (Colony codes0 1 (0, 0) 4) 0 then DIR_NONE codes0
        else directions (Colony codes0 1 (0, 0) 4) ! 0)"
proof -
  have f: "follows codes0 (Colony codes0 1 (0, 0) 4) [0] ring ring_east_scent 0"
    by code_simp
  from scent_following_keeps_direction [OF one_ant_east_explore f] f show ?thesis by simp
qed

lemma opposite_code:
  assumes "codes_ok K" "0 \<le> d" "d < 4" "d \<noteq> 3 - prev"
  shows "d \<noteq> opposite K prev"
proof -
  have ns: "DIR_NORTH K + DIR_SOUTH K = 3"
    using assms(1) unfolding codes_ok_def by blast
  have ew: "DIR_EAST K + DIR_WEST K = 3"
    using assms(1) unfolding codes_ok_def by blast
  have none: "DIR_NONE K \<notin> {0, 1, 2, 3}"
    using assms(1) unfolding codes_ok_def by blast
  from assms(2,3) have d: "d \<in> {0, 1, 2, 3}" by auto
  consider "prev = DIR_NORTH K" | "prev = DIR_SOUTH K" | "prev = DIR_EAST K" | "prev = DIR_WEST K"
    | "prev \<noteq> DIR_NORTH K" "prev \<noteq> DIR_SOUTH K" "prev \<noteq> DIR_EAST K" "prev \<noteq> DIR_WEST K"
    by blast
  then show ?thesis
  proof cases
    case 1
    then have "opposite K prev = 3 - prev" using ns ew by (auto simp: opposite_def)
    with assms(4) show ?thesis by simp
  next
    case 2
    then have "opposite K prev = 3 - prev" using ns ew by (auto simp: opposite_def)
    with assms(4) show ?thesis by simp
  next
    case 3
    then have "opposite K prev = 3 - prev" using ns ew by (auto simp: opposite_def)
    with assms(4) show ?thesis by simp
  next
    case 4
    then have "opposite K prev = 3 - prev" using ns ew by (auto simp: opposite_def)
    with assms(4) show ?thesis by simp
  next
    case 5
    then have "opposite K prev = DIR_NONE K" by (simp add: opposite_def)
    with none d show ?thesis by auto
  qed
qed

text \<open>
  Claim C6. An ant that explores at random from a cell with at least two exits has a
  direction \<open>d\<close> accepted that is not \<open>3 - direction\<close>, which is the exact reverse of its
  stored direction for well-formed codes. The move in direction \<open>d\<close> is what its history
  gets, and \<open>d\<close> is its new direction, unless its life ends in this call.
\<close>

theorem no_u_turn:
  assumes "explore fuel K c U mz food nest ph = Inr c'" "explores K c U mz ph i"
    "2 \<le> exits_at K c U mz ph i"
  shows "\<exists>S d. sense K (seeded c U) mz ph = Inr S \<and> valid_move K S c i d
      \<and> d \<noteq> 3 - directions c ! i
      \<and> (codes_ok K \<longrightarrow> d \<noteq> opposite K (directions c ! i))
      \<and> directions c' ! i = (if dying U c i then DIR_NONE K else d)
      \<and> historic_path c' ! i =
          (if dying U c i
           then (path_set (historic_path c) i (age c ! i + 1)
                   (new_pos K S i d (old_pos_ants c i)))[0 := nest]
           else path_set (historic_path c) i (age c ! i + 1)
                   (new_pos K S i d (old_pos_ants c i)))"
proof -
  from assms(2) obtain S where S: "sense K (seeded c U) mz ph = Inr S"
    "i \<in> set (exploring_ants (seeded c U) S U)"
    by (rule explores_sense)
  from assms(3) S(1) have two: "2 \<le> nb_exits S i" by (simp add: exits_at_def)
  from explore_exploring [OF assms(1) S] obtain d where d: "0 \<le> d" "d < 4"
    "valid_move K S c i d"
    "aged K U nest c c' i
       (path_set (historic_path c) i (age c ! i + 1) (new_pos K S i d (old_pos_ants c i))) d"
    by blast
  from d(3) two have rev: "d \<noteq> 3 - directions c ! i"
    by (auto simp: valid_move_def Let_def)
  have "codes_ok K \<longrightarrow> d \<noteq> opposite K (directions c ! i)"
    using opposite_code [OF _ d(1,2) rev] by blast
  with d rev S(1) show ?thesis
    by (intro exI [of _ S] exI [of _ d]) (simp add: aged_def)
qed

theorem no_u_turn_witness:
  "explores codes0 two_ants [1] ring ring_no_scent 1
   \<and> 2 \<le> exits_at codes0 two_ants [1] ring ring_no_scent 1
   \<and> (\<exists>S d. sense codes0 (seeded two_ants [1]) ring ring_no_scent = Inr S
        \<and> valid_move codes0 S two_ants 1 d
        \<and> d \<noteq> 3 - directions two_ants ! 1
        \<and> d \<noteq> opposite codes0 (directions two_ants ! 1)
        \<and> directions two_ants_explored ! 1 = (if dying [1] two_ants 1 then DIR_NONE codes0 else d)
        \<and> historic_path two_ants_explored ! 1 =
            (if dying [1] two_ants 1
             then (path_set (historic_path two_ants) 1 (age two_ants ! 1 + 1)
                     (new_pos codes0 S 1 d (old_pos_ants two_ants 1)))[0 := (0, 0)]
             else path_set (historic_path two_ants) 1 (age two_ants ! 1 + 1)
                     (new_pos codes0 S 1 d (old_pos_ants two_ants 1))))"
proof -
  have e: "explores codes0 two_ants [1] ring ring_no_scent 1"
    by code_simp
  have x: "2 \<le> exits_at codes0 two_ants [1] ring ring_no_scent 1"
    by code_simp
  from no_u_turn [OF two_ants_explore e x] codes0_ok e x show ?thesis
    by blast
qed

subsection \<open>The ages\<close>

lemma in_loaded_ants_of:
  "i \<in> set (loaded_ants_of c) \<longleftrightarrow> i < length (is_loaded c) \<and> is_loaded c ! i"
  by (auto simp: loaded_ants_of_def)

lemma in_unloaded_ants_of:
  "i \<in> set (unloaded_ants_of c) \<longleftrightarrow> i < length (is_loaded c) \<and> \<not> is_loaded c ! i"
  by (auto simp: unloaded_ants_of_def)

lemma path_at_0: "hp ! i \<noteq> [] \<Longrightarrow> path_at hp i 0 = hp ! i ! 0"
  by (simp add: path_at_def idx_def)

lemma path_set_row0:
  assumes "0 \<le> a" "hp ! i \<noteq> []"
  shows "path_set hp i (a + 1) p \<noteq> []" "path_set hp i (a + 1) p ! 0 = hp ! i ! 0"
    "length (path_set hp i (a + 1) p) = length (hp ! i)"
  using assms by (simp_all add: path_set_def idx_def)

lemma return_to_nest_frame:
  assumes "return_to_nest c L nest fc = Inr (c1, fc1)"
  shows "seeds c1 = seeds c" "max_life c1 = max_life c" "historic_path c1 = historic_path c"
    "directions c1 = directions c" "length (is_loaded c1) = length (age c)"
    "length (age c1) = length (age c)" "\<forall>i \<in> set L. i < length (age c)"
  using assms by (auto simp: return_to_nest_def Let_def split: if_splits)

lemma return_to_nest_nth:
  assumes "return_to_nest c L nest fc = Inr (c1, fc1)" "i < length (age c)"
  shows "age c1 ! i = (if i \<in> set L
           then (if path_at (historic_path c) i (age c ! i - 1) = nest then 0 else age c ! i - 1)
           else age c ! i)"
    "is_loaded c1 ! i = (if i \<in> set L \<and> path_at (historic_path c) i (age c ! i - 1) = nest
           then False else is_loaded c ! i)"
    "i \<in> set L \<Longrightarrow> path_ok (historic_path c) i (age c ! i - 1)"
  using assms by (auto simp: return_to_nest_def Let_def split: if_splits)

lemma return_to_nest_inv:
  assumes "colony_inv nest c" "return_to_nest c (loaded_ants_of c) nest fc = Inr (c1, fc1)"
  shows "colony_inv nest c1" "\<forall>i \<in> set (unloaded_ants_of c). \<not> is_loaded c1 ! i \<and> age c1 ! i = age c ! i"
proof -
  note fr = return_to_nest_frame [OF assms(2)]
  from assms(1) have wf: "wf_colony c" and inv: "\<And>i. i < length (seeds c) \<Longrightarrow> ant_inv nest c i"
    by (auto simp: colony_inv_def)
  have wf1: "wf_colony c1" using wf fr by (simp add: wf_colony_def)
  have "ant_inv nest c1 i" if i: "i < length (seeds c)" for i
  proof -
    have ia: "i < length (age c)" using i wf by (simp add: wf_colony_def)
    note nt = return_to_nest_nth(1,2) [OF assms(2) ia]
    from inv [OF i] have a: "0 \<le> age c ! i" "age c ! i < max_life c ! i"
      "is_loaded c ! i \<longrightarrow> 1 \<le> age c ! i" "historic_path c ! i \<noteq> []"
      "historic_path c ! i ! 0 = nest"
      by (auto simp: ant_inv_def)
    show ?thesis
    proof (cases "i \<in> set (loaded_ants_of c)")
      case False
      then show ?thesis using nt a fr by (simp add: ant_inv_def)
    next
      case True
      then have l: "is_loaded c ! i" by (simp add: in_loaded_ants_of)
      with a have a1: "1 \<le> age c ! i" by simp
      show ?thesis
      proof (cases "path_at (historic_path c) i (age c ! i - 1) = nest")
        case True
        then show ?thesis using nt a fr \<open>i \<in> set (loaded_ants_of c)\<close> by (simp add: ant_inv_def)
      next
        case False
        have "age c ! i - 1 \<noteq> 0"
        proof
          assume "age c ! i - 1 = 0"
          with False path_at_0 [OF a(4)] a(5) show False by simp
        qed
        with a1 have "1 \<le> age c ! i - 1" by simp
        then show ?thesis using nt a fr False \<open>i \<in> set (loaded_ants_of c)\<close>
          by (simp add: ant_inv_def)
      qed
    qed
  qed
  with wf1 fr show "colony_inv nest c1" by (simp add: colony_inv_def)
  show "\<forall>i \<in> set (unloaded_ants_of c). \<not> is_loaded c1 ! i \<and> age c1 ! i = age c ! i"
  proof
    fix i assume i: "i \<in> set (unloaded_ants_of c)"
    then have il: "i < length (is_loaded c)" "\<not> is_loaded c ! i" by (simp_all add: in_unloaded_ants_of)
    then have ia: "i < length (age c)" using wf by (simp add: wf_colony_def)
    have nl: "i \<notin> set (loaded_ants_of c)" using il by (simp add: in_loaded_ants_of)
    from return_to_nest_nth(1,2) [OF assms(2) ia] nl il
    show "\<not> is_loaded c1 ! i \<and> age c1 ! i = age c ! i" by simp
  qed
qed

lemma explore_loop_row0:
  assumes "explore_loop fuel K S E (c, vm) = Inr (c2, vm2)" "i < length (seeds c)"
    "0 \<le> age c ! i" "historic_path c ! i \<noteq> []"
  shows "historic_path c2 ! i \<noteq> []" "historic_path c2 ! i ! 0 = historic_path c ! i ! 0"
    "length (historic_path c2 ! i) = length (historic_path c ! i)"
proof -
  let ?P = "\<lambda>x. length (seeds (fst x)) = length (seeds c) \<and> age (fst x) = age c
     \<and> historic_path (fst x) ! i \<noteq> []
     \<and> historic_path (fst x) ! i ! 0 = historic_path c ! i ! 0
     \<and> length (historic_path (fst x) ! i) = length (historic_path c ! i)"
  have step: "\<And>x y. ?P x \<Longrightarrow> try_moves K S E x = Inr y \<Longrightarrow> ?P y"
  proof -
    fix x y :: "colony \<times> bool list"
    assume P: "?P x" and t: "try_moves K S E x = Inr y"
    from t have t': "try_moves K S E (fst x, snd x) = Inr (fst y, snd y)" by simp
    have i: "i < length (seeds (fst x))" using P assms(2) by simp
    have a: "0 \<le> age (fst x) ! i" using P assms(3) by simp
    have ne: "historic_path (fst x) ! i \<noteq> []" using P by simp
    from try_moves_frame(1,2) [OF t'] try_moves_nth(3) [OF t' i] P path_set_row0 [OF a ne]
    show "?P y" by simp
  qed
  have "?P (c2, vm2) \<and> (\<forall>i \<in> set E. snd (c2, vm2) ! i)"
  proof (rule explore_loop_rule [where P = ?P])
    show "explore_loop fuel K S E (c, vm) = Inr (c2, vm2)" by fact
    show "?P (c, vm)" using assms(4) by simp
    show "\<And>x y. ?P x \<Longrightarrow> try_moves K S E x = Inr y \<Longrightarrow> ?P y" by (rule step)
  qed
  then show "historic_path c2 ! i \<noteq> []" "historic_path c2 ! i ! 0 = historic_path c ! i ! 0"
    "length (historic_path c2 ! i) = length (historic_path c ! i)"
    by simp_all
qed

lemma explore_any:
  assumes "explore fuel K c U mz food nest ph = Inr c'" "i < length (seeds c)"
    "0 \<le> age c ! i" "historic_path c ! i \<noteq> []"
  shows "age c' ! i = (if dying U c i then 0 else if i \<in> set U then age c ! i + 1 else age c ! i)"
    "historic_path c' ! i \<noteq> []"
    "historic_path c' ! i ! 0 = (if dying U c i then nest else historic_path c ! i ! 0)"
    "dying U c i \<Longrightarrow> directions c' ! i = DIR_NONE K"
    "is_loaded c' ! i = (if i \<in> set U \<and> old_pos_ants c' i = food then True else is_loaded c ! i)"
    "length (historic_path c' ! i) = length (historic_path c ! i)"
    "i \<in> set U \<Longrightarrow> path_ok (historic_path c') i (age c' ! i)"
proof -
  from assms(1) obtain S c2 vm c3 where
    U: "\<forall>i \<in> set U. i < length (seeds c)"
    and S: "sense K (seeded c U) mz ph = Inr S"
    and loop: "explore_loop fuel K S (exploring_ants (seeded c U) S U)
       (seeded c U, replicate (length (seeds c)) False) = Inr (c2, vm)"
    and fol: "follow S (following_ants (seeded c U) S U) c2 = Inr c3"
    and tf: "take_food U food (grow_old K U nest c3) = Inr c'"
    by (rule explore_Inr)
  note lf = explore_loop_frame [OF loop] and ff = follow_frame [OF fol]
  have fr: "age c3 = age c" "max_life c3 = max_life c" "length (seeds c3) = length (seeds c)"
    using lf ff by simp_all
  have i1: "i < length (seeds (seeded c U))" using assms(2) by simp
  have a1: "0 \<le> age (seeded c U) ! i" using assms(3) by simp
  have n1: "historic_path (seeded c U) ! i \<noteq> []" using assms(4) by simp
  note r2 = explore_loop_row0 [OF loop i1 a1 n1]
  have i2: "i < length (seeds c2)" using lf(4) assms(2) by simp
  have a2: "0 \<le> age c2 ! i" using lf(1) assms(3) by simp
  have r3: "historic_path c3 ! i \<noteq> []" "historic_path c3 ! i ! 0 = historic_path c ! i ! 0"
    "length (historic_path c3 ! i) = length (historic_path c ! i)"
    using follow_nth(1) [OF fol i2] r2 path_set_row0 [OF a2 r2(1)] by simp_all
  from explore_aged [OF tf fr assms(2)]
  have ag: "aged K U nest c c' i (historic_path c3 ! i) (directions c3 ! i)" .
  show "age c' ! i = (if dying U c i then 0 else if i \<in> set U then age c ! i + 1 else age c ! i)"
    using ag by (simp add: aged_def)
  show "historic_path c' ! i \<noteq> []" using ag r3(1) by (simp add: aged_def)
  show "historic_path c' ! i ! 0 = (if dying U c i then nest else historic_path c ! i ! 0)"
    using ag r3(1,2) by (simp add: aged_def)
  show "dying U c i \<Longrightarrow> directions c' ! i = DIR_NONE K" using ag by (simp add: aged_def)
  have ig: "i < length (seeds (grow_old K U nest c3))" using fr assms(2) by (simp add: grow_old_frame)
  have "old_pos_ants c' i = old_pos_ants (grow_old K U nest c3) i"
    using take_food_frame [OF tf] by (simp add: old_pos_ants_def)
  then show "is_loaded c' ! i = (if i \<in> set U \<and> old_pos_ants c' i = food then True else is_loaded c ! i)"
    using take_food_nth(1) [OF tf ig] ff lf by (simp add: grow_old_frame)
  show "length (historic_path c' ! i) = length (historic_path c ! i)"
    using ag r3(3) by (simp add: aged_def)
  show "i \<in> set U \<Longrightarrow> path_ok (historic_path c') i (age c' ! i)"
    using take_food_nth(2) [OF tf ig] take_food_frame [OF tf] by simp
qed

lemma explore_wf:
  assumes "explore fuel K c U mz food nest ph = Inr c'" "wf_colony c"
  shows "wf_colony c'" "max_life c' = max_life c" "length (seeds c') = length (seeds c)"
proof -
  from assms(1) obtain S c2 vm c3 where
    loop: "explore_loop fuel K S (exploring_ants (seeded c U) S U)
       (seeded c U, replicate (length (seeds c)) False) = Inr (c2, vm)"
    and fol: "follow S (following_ants (seeded c U) S U) c2 = Inr c3"
    and tf: "take_food U food (grow_old K U nest c3) = Inr c'"
    by (rule explore_Inr)
  note lf = explore_loop_frame [OF loop] and ff = follow_frame [OF fol]
    and tff = take_food_frame [OF tf]
  have n3: "length (seeds c3) = length (seeds c)" using lf ff by simp
  show "max_life c' = max_life c" using tff lf ff by (simp add: grow_old_frame)
  show "length (seeds c') = length (seeds c)" using tff n3 by (simp add: grow_old_frame)
  show "wf_colony c'"
    using assms(2) tff lf ff n3 by (simp add: wf_colony_def grow_old_frame)
qed

lemma explore_inv:
  assumes "colony_inv nest c" "explore fuel K c U mz food nest ph = Inr c'" "food \<noteq> nest"
    "\<forall>i \<in> set U. \<not> is_loaded c ! i"
  shows "colony_inv nest c'"
proof -
  from assms(1) have wf: "wf_colony c" and inv: "\<And>i. i < length (seeds c) \<Longrightarrow> ant_inv nest c i"
    by (auto simp: colony_inv_def)
  note w = explore_wf [OF assms(2) wf]
  have "ant_inv nest c' i" if i: "i < length (seeds c)" for i
  proof -
    from inv [OF i] have a: "0 \<le> age c ! i" "age c ! i < max_life c ! i"
      "is_loaded c ! i \<longrightarrow> 1 \<le> age c ! i" "historic_path c ! i \<noteq> []"
      "historic_path c ! i ! 0 = nest"
      by (auto simp: ant_inv_def)
    note e = explore_any [OF assms(2) i a(1) a(4)]
    have h0: "historic_path c' ! i ! 0 = nest" using e(3) a(5) by simp
    have age: "0 \<le> age c' ! i" "age c' ! i < max_life c' ! i"
      using e(1) a w(2) by (auto simp: dying_def split: if_splits)
    have "1 \<le> age c' ! i" if l: "is_loaded c' ! i"
    proof (rule ccontr)
      assume "\<not> 1 \<le> age c' ! i"
      with age have z: "age c' ! i = 0" by simp
      then have pos: "old_pos_ants c' i = nest"
        using path_at_0 [OF e(2)] h0 by (simp add: old_pos_ants_def)
      with l e(5) assms(3) have lc: "is_loaded c ! i" by (auto split: if_splits)
      then have "i \<notin> set U" using assms(4) by blast
      with e(1) z a lc show False by (auto simp: dying_def split: if_splits)
    qed
    with age h0 e(2) show ?thesis by (simp add: ant_inv_def)
  qed
  with w show ?thesis by (simp add: colony_inv_def)
qed

lemma move_ants_Inr:
  assumes "move_ants fuel K c mz food nest ph fc = Inr (c2, fc2, nf)"
  obtains c1 where
    "loaded_ants_of c = [] \<and> c1 = c \<and> fc2 = fc \<and> nf = 0
     \<or> loaded_ants_of c \<noteq> [] \<and> return_to_nest c (loaded_ants_of c) nest 0 = Inr (c1, fc2) \<and> nf = fc2 - fc"
    "unloaded_ants_of c = [] \<and> c2 = c1
     \<or> unloaded_ants_of c \<noteq> [] \<and> explore fuel K c1 (unloaded_ants_of c) mz food nest ph = Inr c2"
  using assms
  by (auto simp: move_ants_def Let_def bindE_Inr_iff split: if_splits)

lemma advance_Inr:
  assumes "advance fuel K r others c mz food nest ph fc = Inr t"
  obtains calls merged where
    "move_ants fuel K c mz food nest ph fc = Inr (colony_of t, food_counter_of t, new_food_of t)"
    "mark_calls K (colony_of t) mz = Inr calls" "marks_of t = calls" "snapshot_of t = ph"
    "marked_of t = mark_all r calls ph ph"
    "allreduce_max (flatten ph) (map flatten others) = Inr merged"
    "pheromon_of t = reshape_like ph merged"
  using assms
  by (auto simp: advance_def Let_def bindE_Inr_iff)

lemma move_ants_inv:
  assumes "colony_inv nest c" "move_ants fuel K c mz food nest ph fc = Inr (c2, fc2, nf)"
    "food \<noteq> nest"
  shows "colony_inv nest c2"
proof -
  from assms(2) obtain c1 where
    l: "loaded_ants_of c = [] \<and> c1 = c \<and> fc2 = fc \<and> nf = 0
     \<or> loaded_ants_of c \<noteq> [] \<and> return_to_nest c (loaded_ants_of c) nest 0 = Inr (c1, fc2) \<and> nf = fc2 - fc"
    and u: "unloaded_ants_of c = [] \<and> c2 = c1
     \<or> unloaded_ants_of c \<noteq> [] \<and> explore fuel K c1 (unloaded_ants_of c) mz food nest ph = Inr c2"
    by (rule move_ants_Inr)
  have c1: "colony_inv nest c1" "\<forall>i \<in> set (unloaded_ants_of c). \<not> is_loaded c1 ! i"
    using l return_to_nest_inv [OF assms(1)] assms(1) by (auto simp: in_unloaded_ants_of)
  from u show ?thesis
  proof
    assume "unloaded_ants_of c = [] \<and> c2 = c1"
    with c1 show ?thesis by simp
  next
    assume "unloaded_ants_of c \<noteq> [] \<and> explore fuel K c1 (unloaded_ants_of c) mz food nest ph = Inr c2"
    then have "explore fuel K c1 (unloaded_ants_of c) mz food nest ph = Inr c2" by simp
    from explore_inv [OF c1(1) this assms(3) c1(2)] show ?thesis .
  qed
qed

lemma advance_inv:
  assumes "colony_inv nest c" "advance fuel K r others c mz food nest ph fc = Inr t"
    "food \<noteq> nest"
  shows "colony_inv nest (colony_of t)"
proof -
  from assms(2) have "move_ants fuel K c mz food nest ph fc
      = Inr (colony_of t, food_counter_of t, new_food_of t)"
    by (rule advance_Inr)
  from move_ants_inv [OF assms(1) this assms(3)] show ?thesis .
qed

lemma lcg_range: "0 \<le> lcg s" "lcg s < 2147483647"
  by (simp_all add: lcg_def)

lemma Colony_frame:
  "length (seeds (Colony K n nest L)) = n" "is_loaded (Colony K n nest L) = replicate n False"
  "age (Colony K n nest L) = replicate n 0"
  "historic_path (Colony K n nest L) = replicate n (nest # replicate L (0, 0))"
  "directions (Colony K n nest L) = replicate n (DIR_NONE K)"
  "length (max_life (Colony K n nest L)) = n"
  by (simp_all add: Colony_def Let_def)

lemma Colony_max_life:
  assumes "i < n"
  shows "max_life (Colony K n nest L) ! i
     = int L - ((int L * lcg (int i + 1)) div 2147483647) div 4"
  using assms by (simp add: Colony_def Let_def)

lemma Colony_life_positive:
  assumes "i < n" "0 < L"
  shows "0 < max_life (Colony K n nest L) ! i"
proof -
  let ?s = "lcg (int i + 1)"
  have "int L * ?s \<le> int L * 2147483647"
    using lcg_range(2) [of "int i + 1"] by (intro mult_left_mono) simp_all
  then have "(int L * ?s) div 2147483647 \<le> (int L * 2147483647) div 2147483647"
    by (intro zdiv_mono1) simp_all
  then have "(int L * ?s) div 2147483647 \<le> int L" by simp
  then have "((int L * ?s) div 2147483647) div 4 \<le> int L div 4"
    by (intro zdiv_mono1) simp_all
  moreover have "int L div 4 < int L" using assms(2) by simp
  ultimately show ?thesis using Colony_max_life [OF assms(1)] by simp
qed

lemma Colony_inv:
  assumes "n = 0 \<or> 0 < L"
  shows "colony_inv nest (Colony K n nest L)"
proof -
  have "wf_colony (Colony K n nest L)" by (simp add: wf_colony_def Colony_frame)
  moreover have "ant_inv nest (Colony K n nest L) i" if "i < n" for i
    using that assms Colony_life_positive [of i n L K nest]
    by (simp add: ant_inv_def Colony_frame)
  ultimately show ?thesis by (simp add: colony_inv_def Colony_frame)
qed


lemma Colony_no_life:
  assumes "advance fuel K r others (Colony K n nest 0) mz food nest ph fc = Inr t"
  shows "n = 0"
proof (rule ccontr)
  assume "n \<noteq> 0"
  then have n: "0 < n" by simp
  let ?c = "Colony K n nest 0"
  have U: "unloaded_ants_of ?c = [0..<n]" and L: "loaded_ants_of ?c = []"
    by (simp_all add: unloaded_ants_of_def loaded_ants_of_def Colony_frame filter_id_conv filter_empty_conv)
  from assms have "move_ants fuel K ?c mz food nest ph fc
      = Inr (colony_of t, food_counter_of t, new_food_of t)"
    by (rule advance_Inr)
  then obtain c1 where
    l: "loaded_ants_of ?c = [] \<and> c1 = ?c \<and> food_counter_of t = fc \<and> new_food_of t = 0
     \<or> loaded_ants_of ?c \<noteq> [] \<and> return_to_nest ?c (loaded_ants_of ?c) nest 0 = Inr (c1, food_counter_of t)
         \<and> new_food_of t = food_counter_of t - fc"
    and u: "unloaded_ants_of ?c = [] \<and> colony_of t = c1
     \<or> unloaded_ants_of ?c \<noteq> [] \<and> explore fuel K c1 (unloaded_ants_of ?c) mz food nest ph = Inr (colony_of t)"
    by (rule move_ants_Inr)
  from l L have c1: "c1 = ?c" by simp
  from u U n c1 have e: "explore fuel K ?c [0..<n] mz food nest ph = Inr (colony_of t)" by simp
  have i: "0 < length (seeds ?c)" using n by (simp add: Colony_frame)
  have a: "0 \<le> age ?c ! 0" using n by (simp add: Colony_frame)
  have h: "historic_path ?c ! 0 \<noteq> []" using n by (simp add: Colony_frame)
  note x = explore_any [OF e i a h]
  have nd: "\<not> dying [0..<n] ?c 0"
    using n Colony_max_life [of 0 n K nest 0] by (simp add: dying_def Colony_frame)
  have "age (colony_of t) ! 0 = 1" using x(1) nd n by (simp add: Colony_frame)
  moreover have "length (historic_path (colony_of t) ! 0) = 1" using x(6) n by (simp add: Colony_frame)
  moreover have "path_ok (historic_path (colony_of t)) 0 (age (colony_of t) ! 0)"
    using x(7) n by simp
  ultimately show False by (simp add: path_ok_def idx_ok_def)
qed

lemma started_inv:
  assumes "started K mz food nest c" "food \<noteq> nest"
  shows "colony_inv nest c \<or> (\<exists>n. c = Colony K n nest 0)"
  using assms
proof (induction rule: started.induct)
  case (fresh nb_ants max_life0)
  show ?case
  proof (cases "0 < max_life0")
    case True
    then show ?thesis using Colony_inv [of nb_ants max_life0 nest K] by simp
  next
    case False
    then show ?thesis by auto
  qed
next
  case (ticked c fuel reinforcement others pheromon food_counter t)
  from ticked.IH [OF ticked.prems] have "colony_inv nest c"
  proof
    assume "colony_inv nest c" then show ?thesis .
  next
    assume "\<exists>n. c = Colony K n nest 0"
    then obtain n where c: "c = Colony K n nest 0" by blast
    with ticked.hyps(2) have "n = 0" using Colony_no_life by blast
    with c show ?thesis using Colony_inv [of n 0 nest K] by simp
  qed
  from advance_inv [OF this ticked.hyps(2) ticked.prems] show ?case by simp
qed

lemma advance_started_inv:
  assumes "started K mz food nest c" "food \<noteq> nest"
    "advance fuel K r others c mz food nest ph fc = Inr t"
  shows "colony_inv nest c" "colony_inv nest (colony_of t)"
proof -
  from started_inv [OF assms(1,2)] show c: "colony_inv nest c"
  proof
    assume "colony_inv nest c" then show ?thesis .
  next
    assume "\<exists>n. c = Colony K n nest 0"
    then obtain n where c: "c = Colony K n nest 0" by blast
    with assms(3) have "n = 0" using Colony_no_life by blast
    with c show ?thesis using Colony_inv [of n 0 nest K] by simp
  qed
  from advance_inv [OF c assms(3,2)] show "colony_inv nest (colony_of t)" .
qed

lemma move_ants_stages:
  assumes "colony_inv nest c" "move_ants fuel K c mz food nest ph fc = Inr (c2, fc2, nf)"
  obtains c1 where "colony_inv nest c1"
    "\<forall>i \<in> set (unloaded_ants_of c). \<not> is_loaded c1 ! i \<and> age c1 ! i = age c ! i"
    "max_life c1 = max_life c" "length (seeds c1) = length (seeds c)"
    "unloaded_ants_of c = [] \<and> c2 = c1
     \<or> unloaded_ants_of c \<noteq> [] \<and> explore fuel K c1 (unloaded_ants_of c) mz food nest ph = Inr c2"
proof -
  from assms(2) obtain c1 where
    l: "loaded_ants_of c = [] \<and> c1 = c \<and> fc2 = fc \<and> nf = 0
     \<or> loaded_ants_of c \<noteq> [] \<and> return_to_nest c (loaded_ants_of c) nest 0 = Inr (c1, fc2) \<and> nf = fc2 - fc"
    and u: "unloaded_ants_of c = [] \<and> c2 = c1
     \<or> unloaded_ants_of c \<noteq> [] \<and> explore fuel K c1 (unloaded_ants_of c) mz food nest ph = Inr c2"
    by (rule move_ants_Inr)
  from l have "colony_inv nest c1
    \<and> (\<forall>i \<in> set (unloaded_ants_of c). \<not> is_loaded c1 ! i \<and> age c1 ! i = age c ! i)
    \<and> max_life c1 = max_life c \<and> length (seeds c1) = length (seeds c)"
  proof
    assume "loaded_ants_of c = [] \<and> c1 = c \<and> fc2 = fc \<and> nf = 0"
    then show ?thesis using assms(1) by (simp add: in_unloaded_ants_of)
  next
    assume "loaded_ants_of c \<noteq> [] \<and> return_to_nest c (loaded_ants_of c) nest 0 = Inr (c1, fc2)
      \<and> nf = fc2 - fc"
    then have r: "return_to_nest c (loaded_ants_of c) nest 0 = Inr (c1, fc2)" by simp
    from return_to_nest_inv [OF assms(1) r] return_to_nest_frame(1,2) [OF r]
    show ?thesis by simp
  qed
  with u show thesis by (intro that [of c1]) simp_all
qed

lemma move_ants_unloaded:
  assumes "colony_inv nest c" "move_ants fuel K c mz food nest ph fc = Inr (c2, fc2, nf)"
    "i \<in> set (unloaded_ants_of c)"
  shows "age c2 ! i = (if age c ! i + 1 = max_life c ! i then 0 else age c ! i + 1)"
    "age c ! i + 1 = max_life c ! i \<Longrightarrow> old_pos_ants c2 i = nest \<and> directions c2 ! i = DIR_NONE K"
proof -
  let ?U = "unloaded_ants_of c"
  from assms(1,2) obtain c1 where c1: "colony_inv nest c1"
    "\<forall>i \<in> set ?U. \<not> is_loaded c1 ! i \<and> age c1 ! i = age c ! i"
    "max_life c1 = max_life c" "length (seeds c1) = length (seeds c)"
    and u: "?U = [] \<and> c2 = c1 \<or> ?U \<noteq> [] \<and> explore fuel K c1 ?U mz food nest ph = Inr c2"
    by (rule move_ants_stages)
  from assms(1) have wf: "wf_colony c" by (simp add: colony_inv_def)
  have i: "i < length (seeds c1)"
    using assms(3) wf c1(4) by (simp add: in_unloaded_ants_of wf_colony_def)
  from c1(1) i have a: "0 \<le> age c1 ! i" "historic_path c1 ! i \<noteq> []"
    by (auto simp: colony_inv_def ant_inv_def)
  from u assms(3) have e: "explore fuel K c1 ?U mz food nest ph = Inr c2" by auto
  note x = explore_any [OF e i a]
  have ai: "age c1 ! i = age c ! i" using c1(2) assms(3) by blast
  have d: "dying ?U c1 i \<longleftrightarrow> age c ! i + 1 = max_life c ! i"
    using assms(3) c1(3) ai by (simp add: dying_def)
  show "age c2 ! i = (if age c ! i + 1 = max_life c ! i then 0 else age c ! i + 1)"
    using x(1) d assms(3) ai by simp
  show "old_pos_ants c2 i = nest \<and> directions c2 ! i = DIR_NONE K"
    if "age c ! i + 1 = max_life c ! i"
    using that x(1,2,3,4) d path_at_0 [OF x(2)] by (simp add: old_pos_ants_def)
qed

lemma move_ants_max_life:
  assumes "colony_inv nest c" "move_ants fuel K c mz food nest ph fc = Inr (c2, fc2, nf)"
  shows "max_life c2 = max_life c" "length (seeds c2) = length (seeds c)"
proof -
  let ?U = "unloaded_ants_of c"
  from assms(1,2) obtain c1 where c1: "colony_inv nest c1"
    "max_life c1 = max_life c" "length (seeds c1) = length (seeds c)"
    and u: "?U = [] \<and> c2 = c1 \<or> ?U \<noteq> [] \<and> explore fuel K c1 ?U mz food nest ph = Inr c2"
    by (rule move_ants_stages)
  from c1(1) have wf: "wf_colony c1" by (simp add: colony_inv_def)
  from u have "max_life c2 = max_life c \<and> length (seeds c2) = length (seeds c)"
  proof
    assume "?U = [] \<and> c2 = c1"
    with c1 show ?thesis by simp
  next
    assume "?U \<noteq> [] \<and> explore fuel K c1 ?U mz food nest ph = Inr c2"
    then have e: "explore fuel K c1 ?U mz food nest ph = Inr c2" by simp
    from explore_wf(2,3) [OF e wf] c1 show ?thesis by simp
  qed
  then show "max_life c2 = max_life c" "length (seeds c2) = length (seeds c)" by simp_all
qed

lemma map_sum_InrD: "map_sum f g x = Inr y \<Longrightarrow> \<exists>t. x = Inr t \<and> g t = y"
  by (cases x) auto

lemma short_life_tick:
  "map_sum id (\<lambda>t. True)
     (advance 9 codes0 unit_deposit [] (Colony codes0 1 (0, 0) 1) corridor (0, 1) (0, 0)
        no_scent 0) = Inr True"
  by code_simp

lemma two_ants_started: "started codes0 ring (0, 1) (0, 0) two_ants"
proof -
  from map_sum_InrD [OF two_ants_reached] obtain t where
    t: "advance 9 codes0 unit_deposit [] (Colony codes0 2 (0, 0) 4) ring (0, 1) (0, 0)
          ring_no_scent 0 = Inr t" "colony_of t = two_ants"
    by blast
  from started.ticked [OF started.fresh t(1)] t(2) show ?thesis by simp
qed

text \<open>
  Claim C4, as stated, fails when the food lies on the nest. One ant with a life of 1 leaves
  the nest, reaches the end of its life in the same tick and is put back on the nest at
  age 0; there it stands on the food and becomes loaded (\<open>home_fed\<close>). In the next tick
  \<open>return_to_nest\<close> takes one off its age: the tick ends with the age -1.
\<close>

theorem age_goes_negative:
  "map_sum id colony_of
     (advance 9 codes0 unit_deposit [] (Colony codes0 1 (0, 0) 1) corridor (0, 0) (0, 0)
        no_scent 0) = Inr home_fed
   \<and> map_sum id (age \<circ> colony_of)
       (advance 9 codes0 unit_deposit [] home_fed corridor (0, 0) (0, 0) no_scent 0) = Inr [- 1]"
  by code_simp

text \<open>
  Claim C4, amended: with the food away from the nest. After a completed tick the age of
  every ant is at least 0 and below its life, which the tick does not change. An unloaded
  ant whose age reaches its life in the tick ends the tick at age 0, on the nest, with no
  direction; every other unloaded ant is one older.
\<close>

theorem ages_stay_below_life:
  assumes "started K mz food nest c" "food \<noteq> nest"
    "advance fuel K r others c mz food nest ph fc = Inr t" "i < length (seeds c)"
  shows "0 \<le> age (colony_of t) ! i \<and> age (colony_of t) ! i < max_life (colony_of t) ! i
     \<and> max_life (colony_of t) = max_life c
     \<and> (i \<in> set (unloaded_ants_of c) \<longrightarrow>
          (if age c ! i + 1 = max_life c ! i
           then age (colony_of t) ! i = 0 \<and> old_pos_ants (colony_of t) i = nest
                \<and> directions (colony_of t) ! i = DIR_NONE K
           else age (colony_of t) ! i = age c ! i + 1))"
proof -
  note inv = advance_started_inv [OF assms(1-3)]
  from assms(3) have m: "move_ants fuel K c mz food nest ph fc
      = Inr (colony_of t, food_counter_of t, new_food_of t)"
    by (rule advance_Inr)
  note ml = move_ants_max_life [OF inv(1) m]
  have "ant_inv nest (colony_of t) i" using inv(2) ml(2) assms(4) by (simp add: colony_inv_def)
  then have "0 \<le> age (colony_of t) ! i" "age (colony_of t) ! i < max_life (colony_of t) ! i"
    by (simp_all add: ant_inv_def)
  moreover have "i \<in> set (unloaded_ants_of c) \<longrightarrow>
          (if age c ! i + 1 = max_life c ! i
           then age (colony_of t) ! i = 0 \<and> old_pos_ants (colony_of t) i = nest
                \<and> directions (colony_of t) ! i = DIR_NONE K
           else age (colony_of t) ! i = age c ! i + 1)"
    using move_ants_unloaded [OF inv(1) m] by simp
  ultimately show ?thesis using ml(1) by simp
qed

theorem ages_stay_below_life_witness:
  "\<exists>t. advance 9 codes0 unit_deposit [] (Colony codes0 1 (0, 0) 1) corridor (0, 1) (0, 0)
          no_scent 0 = Inr t
     \<and> 0 \<in> set (unloaded_ants_of (Colony codes0 1 (0, 0) 1))
     \<and> age (Colony codes0 1 (0, 0) 1) ! 0 + 1 = max_life (Colony codes0 1 (0, 0) 1) ! 0
     \<and> age (colony_of t) ! 0 = 0 \<and> old_pos_ants (colony_of t) 0 = (0, 0)
     \<and> directions (colony_of t) ! 0 = DIR_NONE codes0"
proof -
  let ?c = "Colony codes0 1 (0, 0) 1"
  from map_sum_InrD [OF short_life_tick] obtain t where
    t: "advance 9 codes0 unit_deposit [] ?c corridor (0, 1) (0, 0) no_scent 0 = Inr t"
    by blast
  have u: "0 \<in> set (unloaded_ants_of ?c)" by code_simp
  have a: "age ?c ! 0 + 1 = max_life ?c ! 0" by code_simp
  have n: "0 < length (seeds ?c)" by code_simp
  have neq: "((0, 1) :: pos) \<noteq> (0, 0)" by simp
  from ages_stay_below_life [OF started.fresh neq t n] u a t show ?thesis by auto
qed

text \<open>
  Claim C9. With the food away from the nest, every loaded ant at the start of a tick, where
  \<open>advance\<close> calls \<open>return_to_nest\<close>, has an age of at least 1: the age after the
  decrement is not negative and the lookup in the history reads the entry of that age,
  not one counted from the end. The same holds for the colony that the tick leaves.
\<close>

theorem loaded_ants_are_past_the_nest:
  assumes "started K mz food nest c" "food \<noteq> nest"
  shows "(i \<in> set (loaded_ants_of c) \<longrightarrow>
            1 \<le> age c ! i
          \<and> path_at (historic_path c) i (age c ! i - 1) = historic_path c ! i ! nat (age c ! i - 1))
     \<and> (advance fuel K r others c mz food nest ph fc = Inr t
          \<and> j \<in> set (loaded_ants_of (colony_of t)) \<longrightarrow> 1 \<le> age (colony_of t) ! j)"
proof -
  have older: "1 \<le> age x ! k"
    if s: "started K mz food nest x" and k: "k \<in> set (loaded_ants_of x)" for x k
  proof -
    from k have l: "k < length (is_loaded x)" "is_loaded x ! k"
      by (simp_all add: in_loaded_ants_of)
    from started_inv [OF s assms(2)] have "colony_inv nest x"
    proof
      assume "colony_inv nest x" then show ?thesis .
    next
      assume "\<exists>n. x = Colony K n nest 0"
      with l show ?thesis by (auto simp: Colony_frame)
    qed
    with l have "ant_inv nest x k" by (simp add: colony_inv_def wf_colony_def)
    with l(2) show ?thesis by (simp add: ant_inv_def)
  qed
  have "1 \<le> age c ! i
      \<and> path_at (historic_path c) i (age c ! i - 1) = historic_path c ! i ! nat (age c ! i - 1)"
    if "i \<in> set (loaded_ants_of c)"
    using older [OF assms(1) that] by (simp add: path_at_def idx_def)
  moreover have "1 \<le> age (colony_of t) ! j"
    if "advance fuel K r others c mz food nest ph fc = Inr t"
      "j \<in> set (loaded_ants_of (colony_of t))"
    using older [OF started.ticked [OF assms(1) that(1)] that(2)] .
  ultimately show ?thesis by blast
qed

theorem loaded_ants_are_past_the_nest_witness:
  "0 \<in> set (loaded_ants_of two_ants) \<and> 1 \<le> age two_ants ! 0
   \<and> path_at (historic_path two_ants) 0 (age two_ants ! 0 - 1)
       = historic_path two_ants ! 0 ! nat (age two_ants ! 0 - 1)
   \<and> (\<exists>t. advance 9 codes0 unit_deposit [] (Colony codes0 2 (0, 0) 4) ring (0, 1) (0, 0)
             ring_no_scent 0 = Inr t
         \<and> 0 \<in> set (loaded_ants_of (colony_of t)) \<and> 1 \<le> age (colony_of t) ! 0)"
proof -
  have neq: "((0, 1) :: pos) \<noteq> (0, 0)" by simp
  have l: "0 \<in> set (loaded_ants_of two_ants)" by code_simp
  from map_sum_InrD [OF two_ants_reached] obtain t where
    t: "advance 9 codes0 unit_deposit [] (Colony codes0 2 (0, 0) 4) ring (0, 1) (0, 0)
          ring_no_scent 0 = Inr t" "colony_of t = two_ants"
    by blast
  from loaded_ants_are_past_the_nest [OF two_ants_started neq, of 0] l
  have a: "1 \<le> age two_ants ! 0
    \<and> path_at (historic_path two_ants) 0 (age two_ants ! 0 - 1)
       = historic_path two_ants ! 0 ! nat (age two_ants ! 0 - 1)"
    by blast
  have "advance 9 codes0 unit_deposit [] (Colony codes0 2 (0, 0) 4) ring (0, 1) (0, 0)
          ring_no_scent 0 = Inr t
        \<and> 0 \<in> set (loaded_ants_of (colony_of t)) \<longrightarrow> 1 \<le> age (colony_of t) ! 0"
    using loaded_ants_are_past_the_nest [OF started.fresh neq] by (rule conjunct2)
  with t l have b: "1 \<le> age (colony_of t) ! 0" by simp
  from a b l t show ?thesis by auto
qed

subsection \<open>The deposits\<close>

lemma row_add_commute:
  fixes row :: "real list"
  shows "(row[i := row ! i + x])[j := (row[i := row ! i + x]) ! j + y]
       = (row[j := row ! j + y])[i := (row[j := row ! j + y]) ! i + x]"
proof (cases "i = j")
  case True
  show ?thesis
  proof (cases "i < length row")
    case inr: True
    with True show ?thesis by (simp add: add.commute add.left_commute)
  next
    case False
    then have "length row \<le> i" by simp
    with True show ?thesis by (simp add: list_update_beyond)
  qed
next
  case False
  then show ?thesis by (simp add: list_update_swap)
qed

lemma arr_add_commute:
  fixes a :: "real list list"
  shows "arr_upd (arr_upd a p (arr_at a p + x)) q (arr_at (arr_upd a p (arr_at a p + x)) q + y)
       = arr_upd (arr_upd a q (arr_at a q + y)) p (arr_at (arr_upd a q (arr_at a q + y)) p + x)"
proof -
  let ?rp = "idx (length a) (fst p)" and ?rq = "idx (length a) (fst q)"
  show ?thesis
  proof (cases "?rp = ?rq")
    case False
    then show ?thesis
      by (simp add: arr_upd_def arr_at_def Let_def list_update_swap)
  next
    case True
    show ?thesis
    proof (cases "?rp < length a")
      case False
      then have "length a \<le> ?rp" by simp
      with True show ?thesis by (simp add: arr_upd_def arr_at_def Let_def list_update_beyond)
    next
      case inr: True
      with True show ?thesis
        using row_add_commute [of "a ! ?rp" "idx (length (a ! ?rp)) (snd p)" x
            "idx (length (a ! ?rp)) (snd q)" y]
        by (simp add: arr_upd_def arr_at_def Let_def)
    qed
  qed
qed

lemma mark_commute:
  "mark r (mark r ph p e old) q e' old = mark r (mark r ph q e' old) p e old"
  unfolding mark_def Let_def by (rule arr_add_commute)

lemma mark_all_permuted:
  assumes "mset calls' = mset calls"
  shows "mark_all r calls' old ph = mark_all r calls old ph"
proof -
  have "fold (\<lambda>pe f. mark r f (fst pe) (snd pe) old) calls'
      = fold (\<lambda>pe f. mark r f (fst pe) (snd pe) old) calls"
    by (rule fold_multiset_equiv [OF _ assms]) (simp add: fun_eq_iff mark_commute)
  then show ?thesis by (simp add: mark_all_def)
qed

lemma mark_calls_nth:
  assumes "mark_calls K c mz = Inr calls"
  shows "length calls = length (seeds c)"
    "i < length (seeds c) \<Longrightarrow> calls ! i =
       (old_pos_ants c i,
        [arr_at mz (old_pos_ants c i) AND NORTH K > 0, arr_at mz (old_pos_ants c i) AND EAST K > 0,
         arr_at mz (old_pos_ants c i) AND WEST K > 0, arr_at mz (old_pos_ants c i) AND SOUTH K > 0])"
  using assms by (auto simp: mark_calls_def Let_def split: if_splits)

text \<open>
  Claim C2, as stated, fails. In the first tick of two ants from the nest (0, 0) of the ring,
  both ants stand on the nest before the move; the calls of \<open>mark\<close> are made for the cells
  (0, 1) and (1, 0) that the ants have moved to, and the deposits land there and not on the
  nest: \<open>advance\<close> reads \<open>historic_path[i, age[i]]\<close> after \<open>explore\<close> has run.
\<close>

theorem deposit_is_at_the_new_cell:
  "map (old_pos_ants (Colony codes0 2 (0, 0) 4)) [0, 1] = [(0, 0), (0, 0)]
   \<and> map_sum id (map fst \<circ> marks_of)
       (advance 9 codes0 unit_deposit [] (Colony codes0 2 (0, 0) 4) ring (0, 1) (0, 0)
          ring_no_scent 0) = Inr [(0, 1), (1, 0)]
   \<and> map_sum id marked_of
       (advance 9 codes0 unit_deposit [] (Colony codes0 2 (0, 0) 4) ring (0, 1) (0, 0)
          ring_no_scent 0) = Inr [[0, 0, 0, 0], [0, 0, 1, 0], [0, 1, 0, 0], [0, 0, 0, 0]]"
  by code_simp

text \<open>
  Claim C2, amended. There is one call of \<open>mark\<close> per ant, for the cell the ant occupies
  after the moves of this tick and with the exits of that cell. Every call is given the
  same copy of the field, taken before the first call, and the field after the calls is
  the same for every order of the calls.
\<close>

theorem deposits_follow_the_move:
  assumes "advance fuel K r others c mz food nest ph fc = Inr t"
  shows "length (marks_of t) = length (seeds (colony_of t))
     \<and> (\<forall>i < length (seeds (colony_of t)).
           marks_of t ! i =
             (old_pos_ants (colony_of t) i,
              [arr_at mz (old_pos_ants (colony_of t) i) AND NORTH K > 0,
               arr_at mz (old_pos_ants (colony_of t) i) AND EAST K > 0,
               arr_at mz (old_pos_ants (colony_of t) i) AND WEST K > 0,
               arr_at mz (old_pos_ants (colony_of t) i) AND SOUTH K > 0]))
     \<and> snapshot_of t = ph
     \<and> marked_of t = mark_all r (marks_of t) (snapshot_of t) ph
     \<and> (\<forall>calls. mset calls = mset (marks_of t) \<longrightarrow>
           mark_all r calls (snapshot_of t) ph = marked_of t)"
proof -
  from assms obtain calls merged where
    mc: "mark_calls K (colony_of t) mz = Inr calls" and m: "marks_of t = calls"
    and s: "snapshot_of t = ph" and md: "marked_of t = mark_all r calls ph ph"
    by (rule advance_Inr)
  have len: "length (marks_of t) = length (seeds (colony_of t))"
    using mark_calls_nth(1) [OF mc] m by simp
  have nth: "\<forall>i < length (seeds (colony_of t)).
           marks_of t ! i =
             (old_pos_ants (colony_of t) i,
              [arr_at mz (old_pos_ants (colony_of t) i) AND NORTH K > 0,
               arr_at mz (old_pos_ants (colony_of t) i) AND EAST K > 0,
               arr_at mz (old_pos_ants (colony_of t) i) AND WEST K > 0,
               arr_at mz (old_pos_ants (colony_of t) i) AND SOUTH K > 0])"
    using mark_calls_nth(2) [OF mc] unfolding m by blast
  have md': "marked_of t = mark_all r (marks_of t) (snapshot_of t) ph"
    unfolding m s by (rule md)
  have perm: "\<forall>calls'. mset calls' = mset (marks_of t) \<longrightarrow>
           mark_all r calls' (snapshot_of t) ph = marked_of t"
  proof (intro allI impI)
    fix calls' assume "mset calls' = mset (marks_of t)"
    then have "mark_all r calls' (snapshot_of t) ph = mark_all r (marks_of t) (snapshot_of t) ph"
      by (rule mark_all_permuted)
    with md' show "mark_all r calls' (snapshot_of t) ph = marked_of t" by simp
  qed
  from len nth s md' perm show ?thesis by blast
qed

theorem deposits_follow_the_move_witness:
  "\<exists>t. advance 9 codes0 unit_deposit [] (Colony codes0 2 (0, 0) 4) ring (0, 1) (0, 0)
          ring_no_scent 0 = Inr t
     \<and> colony_of t = two_ants
     \<and> fst (marks_of t ! 1) = old_pos_ants two_ants 1
     \<and> mark_all unit_deposit (rev (marks_of t)) (snapshot_of t) ring_no_scent = marked_of t"
proof -
  from map_sum_InrD [OF two_ants_reached] obtain t where
    t: "advance 9 codes0 unit_deposit [] (Colony codes0 2 (0, 0) 4) ring (0, 1) (0, 0)
          ring_no_scent 0 = Inr t" "colony_of t = two_ants"
    by blast
  have n: "1 < length (seeds two_ants)" by code_simp
  note d = deposits_follow_the_move [OF t(1)]
  from d have "\<forall>i < length (seeds (colony_of t)). fst (marks_of t ! i) = old_pos_ants (colony_of t) i"
    by simp
  with n t(2) have a: "fst (marks_of t ! 1) = old_pos_ants two_ants 1" by simp
  from d have "\<forall>calls. mset calls = mset (marks_of t) \<longrightarrow>
      mark_all unit_deposit calls (snapshot_of t) ring_no_scent = marked_of t"
    by blast
  then have "mark_all unit_deposit (rev (marks_of t)) (snapshot_of t) ring_no_scent = marked_of t"
    by simp
  with a t show ?thesis by blast
qed

subsection \<open>The merge of the fields\<close>
















subsection \<open>The trails\<close>



lemma idx_nat: "0 \<le> i \<Longrightarrow> idx n i = nat i"
  by (simp add: idx_def)





































end
